theory Spec2Isabelle
  imports Main "HOL-Library.Word"
begin

section \<open>Data model\<close>

text \<open>
  The buffer pool of \<^verbatim>\<open>src/Lab1/buffer_pool_manager.cpp\<close> and the LRU replacer of
  \<^verbatim>\<open>src/Lab1/lru_replacer.cpp\<close>. Member functions become functions that take the object's
  state first and return the updated state together with the C++ return value.
  A \<^verbatim>\<open>Page*\<close> into \<^verbatim>\<open>pages_\<close> is represented by its frame index
  (\<^verbatim>\<open>pages_ + frame_id\<close>), the null pointer by \<open>None\<close>. Data members keep their names
  without the trailing underscore (\<^verbatim>\<open>free_list_\<close> is \<open>free_list\<close>); \<^verbatim>\<open>id_\<close> is \<open>ident\<close>.
\<close>

type_synonym frame_id_t = int
type_synonym page_id_t = int
type_synonym byte = "8 word"

text \<open>
  Modelled from the spec: the reserved sentinel page number that denotes "no page". The header
  that declares it is not part of the sources; no theorem below depends on its value.
\<close>

definition INVALID_PAGE_ID :: page_id_t where
  "INVALID_PAGE_ID = -1"

text \<open>
  Modelled from the spec: the sentinel for "no frame", declared in a header that is not part
  of the sources; no theorem below depends on its value.
\<close>

definition INVALID_FRAME_ID :: frame_id_t where
  "INVALID_FRAME_ID = -1"

text \<open>
  Modelled from the spec: the fixed page size in bytes (4096 in the spec's concrete scenario),
  declared in a header that is not part of the sources; no theorem below depends on its value.
\<close>

definition PAGE_SIZE :: nat where
  "PAGE_SIZE = 4096"

text \<open>Modelled from the spec: PageIdentity is the composite key (fileHandle, pageNumber).\<close>

record PageId =
  fd :: int
  page_no :: page_id_t

text \<open>
  Modelled from the spec: a frame holds its identity, a byte buffer, the dirty flag and
  the pin count ("unsigned integer \<open>\<ge> 0\<close>"); the class declaration is not part of the sources.
\<close>

record Page =
  ident :: PageId
  data :: "byte list"
  is_dirty :: bool
  pin_count :: nat

text \<open>Modelled from the spec: resetting a frame's buffer gives the zeroed state.\<close>

definition reset_memory :: "Page \<Rightarrow> Page" where
  "reset_memory p = p\<lparr>data := replicate PAGE_SIZE 0\<rparr>"

subsection \<open>Disk manager (external collaborator)\<close>

text \<open>
  Modelled from the spec: the disk manager is not part of the sources; section 6 of the spec
  gives its interface. Its state is the persisted content of every page slot
  \<open>(fileHandle, pageNumber)\<close> and, for every file, the next page number to hand out.
\<close>

record DiskManager =
  disk_pages :: "int \<times> page_id_t \<rightharpoonup> byte list"
  fd2pageno :: "int \<Rightarrow> page_id_t"

text \<open>Modelled from the spec: \<open>writePage\<close> persists \<open>size\<close> bytes of the buffer to the page slot.\<close>

definition write_page :: "DiskManager \<Rightarrow> int \<Rightarrow> page_id_t \<Rightarrow> byte list \<Rightarrow> nat \<Rightarrow> DiskManager" where
  "write_page d f n buf num_bytes = d\<lparr>disk_pages := (disk_pages d)((f, n) \<mapsto> take num_bytes buf)\<rparr>"

text \<open>
  Modelled from the spec: \<open>readPage\<close> fills the buffer with \<open>size\<close> bytes from the page slot
  and fails fatally when the slot is invalid; here a slot is invalid when nothing was ever
  persisted there, and the fatal failure is the result \<open>None\<close>.
\<close>

definition read_page :: "DiskManager \<Rightarrow> int \<Rightarrow> page_id_t \<Rightarrow> nat \<Rightarrow> byte list option" where
  "read_page d f n num_bytes = map_option (take num_bytes) (disk_pages d (f, n))"

text \<open>
  Modelled from the spec: \<open>allocatePage\<close> reserves and returns a fresh page number of the file.
\<close>

definition allocate_page :: "DiskManager \<Rightarrow> int \<Rightarrow> page_id_t \<times> DiskManager" where
  "allocate_page d f = (fd2pageno d f, d\<lparr>fd2pageno := (fd2pageno d)(f := fd2pageno d f + 1)\<rparr>)"

section \<open>LRU replacer\<close>

text \<open>
  \<^verbatim>\<open>LRUlist_\<close> is the \<^verbatim>\<open>std::list\<close> (its front is the head of the list),
  \<^verbatim>\<open>LRUhash_\<close> the \<^verbatim>\<open>unordered_map\<close> from frame ids to list iterators. An iterator
  stored under key \<open>f\<close> points at the node that holds \<open>f\<close>, so the map is represented by its
  key set, and erasing through the iterator removes the node holding \<open>f\<close>.
\<close>

record LRUReplacer =
  LRUlist :: "frame_id_t list"
  LRUhash :: "frame_id_t set"
  max_size :: nat

definition LRUReplacer_new :: "nat \<Rightarrow> LRUReplacer" where
  "LRUReplacer_new num_pages = \<lparr>LRUlist = [], LRUhash = {}, max_size = num_pages\<rparr>"

text \<open>\<^verbatim>\<open>victim\<close> returns its boolean result, the value stored through the out-parameter and the new state.\<close>

definition victim :: "LRUReplacer \<Rightarrow> bool \<times> frame_id_t \<times> LRUReplacer" where
  "victim r =
     (if LRUlist r = [] then (False, INVALID_FRAME_ID, r)
      else let frame_id = last (LRUlist r)
           in (True, frame_id,
               r\<lparr>LRUlist := butlast (LRUlist r), LRUhash := LRUhash r - {frame_id}\<rparr>))"

definition pin :: "LRUReplacer \<Rightarrow> frame_id_t \<Rightarrow> LRUReplacer" where
  "pin r frame_id =
     (if frame_id \<in> LRUhash r
      then r\<lparr>LRUlist := remove1 frame_id (LRUlist r), LRUhash := LRUhash r - {frame_id}\<rparr>
      else r)"

definition unpin :: "LRUReplacer \<Rightarrow> frame_id_t \<Rightarrow> LRUReplacer" where
  "unpin r frame_id =
     (if frame_id \<notin> LRUhash r
      then r\<lparr>LRUlist := frame_id # LRUlist r, LRUhash := insert frame_id (LRUhash r)\<rparr>
      else r)"

definition Size :: "LRUReplacer \<Rightarrow> nat" where
  "Size r = length (LRUlist r)"

section \<open>Buffer pool manager\<close>

record BufferPoolManager =
  pool_size :: nat
  pages :: "Page list"
  page_table :: "PageId \<rightharpoonup> frame_id_t"
  free_list :: "frame_id_t list"
  replacer :: LRUReplacer
  disk_manager :: DiskManager

text \<open>
  Modelled from the spec: a frame is created with the sentinel identity, a zeroed buffer,
  \<open>dirty = false\<close> and \<open>pinCount = 0\<close> (the class declaration is not part of the sources). The
  spec fixes only the page number of the sentinel identity; its file handle is taken as \<open>-1\<close>.
\<close>

definition new_Page :: Page where
  "new_Page = \<lparr>ident = \<lparr>fd = -1, page_no = INVALID_PAGE_ID\<rparr>, data = replicate PAGE_SIZE 0,
               is_dirty = False, pin_count = 0\<rparr>"

text \<open>
  Modelled from the spec: the constructor of the pool, which lives in the missing header. All
  frames are new, the free list holds every frame index in allocation order, and nothing is
  resident or eligible.
\<close>

definition BufferPoolManager_new :: "nat \<Rightarrow> DiskManager \<Rightarrow> BufferPoolManager" where
  "BufferPoolManager_new num_frames dm =
     \<lparr>pool_size = num_frames, pages = replicate num_frames new_Page, page_table = Map.empty,
      free_list = map int [0..<num_frames], replacer = LRUReplacer_new num_frames,
      disk_manager = dm\<rparr>"

text \<open>
  \<^verbatim>\<open>pages_[frame_id]\<close> and the store through \<^verbatim>\<open>pages_ + frame_id\<close>. An index outside the
  array is undefined behaviour in C++; the theorems below speak about frames in range only
  (every frame that a reachable pool hands out is in range, see \<open>pool_inv\<close>).
\<close>

abbreviation page_at :: "BufferPoolManager \<Rightarrow> frame_id_t \<Rightarrow> Page" where
  "page_at s frame_id \<equiv> pages s ! nat frame_id"

abbreviation page_set :: "BufferPoolManager \<Rightarrow> frame_id_t \<Rightarrow> Page \<Rightarrow> BufferPoolManager" where
  "page_set s frame_id p \<equiv> s\<lparr>pages := (pages s)[nat frame_id := p]\<rparr>"

definition find_victim_page :: "BufferPoolManager \<Rightarrow> bool \<times> frame_id_t \<times> BufferPoolManager" where
  "find_victim_page s =
     (if free_list s \<noteq> []
      then (True, hd (free_list s), s\<lparr>free_list := tl (free_list s)\<rparr>)
      else case victim (replacer s) of (ok, frame_id, r) \<Rightarrow> (ok, frame_id, s\<lparr>replacer := r\<rparr>))"

text \<open>The first argument after the state is the frame that the \<^verbatim>\<open>Page*\<close> argument points at.\<close>

definition update_page :: "BufferPoolManager \<Rightarrow> frame_id_t \<Rightarrow> PageId \<Rightarrow> frame_id_t \<Rightarrow> BufferPoolManager" where
  "update_page s page new_page_id new_frame_id =
     (let s1 = (if is_dirty (page_at s page)
                then page_set
                       (s\<lparr>disk_manager :=
                            write_page (disk_manager s) (fd (ident (page_at s page)))
                              (page_no (ident (page_at s page))) (data (page_at s page)) PAGE_SIZE\<rparr>)
                       page ((page_at s page)\<lparr>is_dirty := False\<rparr>)
                else s);
          s2 = page_set s1 page ((page_at s1 page)\<lparr>pin_count := 0\<rparr>);
          s3 = s2\<lparr>page_table := (page_table s2)(ident (page_at s2 page) := None)\<rparr>;
          s4 = s3\<lparr>page_table := (page_table s3)(new_page_id \<mapsto> new_frame_id)\<rparr>;
          s5 = page_set s4 page (reset_memory (page_at s4 page));
          s6 = page_set s5 new_frame_id ((page_at s5 new_frame_id)\<lparr>ident := new_page_id\<rparr>);
          s7 = page_set s6 new_frame_id ((page_at s6 new_frame_id)\<lparr>is_dirty := False\<rparr>)
      in page_set s7 new_frame_id ((page_at s7 new_frame_id)\<lparr>pin_count := 0\<rparr>))"

text \<open>
  The only failure that is not a return value: the fatal failure of the disk manager's
  \<open>readPage\<close>, which aborts the caller in the middle of \<^verbatim>\<open>fetch_page\<close>.
\<close>

datatype error = DiskFault

definition fetch_page :: "BufferPoolManager \<Rightarrow> PageId \<Rightarrow> error + (frame_id_t option \<times> BufferPoolManager)" where
  "fetch_page s page_id =
     (case page_table s page_id of
        Some frame_id \<Rightarrow>
          let s1 = s\<lparr>replacer := pin (replacer s) frame_id\<rparr>;
              s2 = page_set s1 frame_id
                     ((page_at s1 frame_id)\<lparr>pin_count := pin_count (page_at s1 frame_id) + 1\<rparr>)
          in Inr (Some frame_id, s2)
      | None \<Rightarrow>
          (case find_victim_page s of
             (False, frame_id, s1) \<Rightarrow> Inr (None, s1)
           | (True, frame_id, s1) \<Rightarrow>
               let s2 = update_page s1 frame_id page_id frame_id
               in (case read_page (disk_manager s2) (fd page_id) (page_no page_id) PAGE_SIZE of
                     None \<Rightarrow> Inl DiskFault
                   | Some bytes \<Rightarrow>
                       let s3 = page_set s2 frame_id ((page_at s2 frame_id)\<lparr>data := bytes\<rparr>);
                           s4 = s3\<lparr>replacer := pin (replacer s3) frame_id\<rparr>;
                           s5 = page_set s4 frame_id
                                  ((page_at s4 frame_id)\<lparr>pin_count := pin_count (page_at s4 frame_id) + 1\<rparr>)
                       in Inr (Some frame_id, s5))))"

definition unpin_page :: "BufferPoolManager \<Rightarrow> PageId \<Rightarrow> bool \<Rightarrow> bool \<times> BufferPoolManager" where
  "unpin_page s page_id mark_dirty =
     (case page_table s page_id of
        None \<Rightarrow> (False, s)
      | Some frame_id \<Rightarrow>
          if pin_count (page_at s frame_id) \<le> 0 then (False, s)
          else
            let s1 = page_set s frame_id
                       ((page_at s frame_id)\<lparr>pin_count := pin_count (page_at s frame_id) - 1\<rparr>);
                s2 = (if pin_count (page_at s1 frame_id) = 0
                      then s1\<lparr>replacer := unpin (replacer s1) frame_id\<rparr> else s1);
                s3 = (if mark_dirty
                      then page_set s2 frame_id ((page_at s2 frame_id)\<lparr>is_dirty := True\<rparr>) else s2)
            in (True, s3))"

definition flush_page :: "BufferPoolManager \<Rightarrow> PageId \<Rightarrow> bool \<times> BufferPoolManager" where
  "flush_page s page_id =
     (case page_table s page_id of
        None \<Rightarrow> (False, s)
      | Some frame_id \<Rightarrow>
          let s1 = s\<lparr>disk_manager :=
                      write_page (disk_manager s) (fd page_id) (page_no page_id)
                        (data (page_at s frame_id)) PAGE_SIZE\<rparr>;
              s2 = page_set s1 frame_id ((page_at s1 frame_id)\<lparr>is_dirty := False\<rparr>)
          in (True, s2))"

text \<open>
  \<^verbatim>\<open>new_page\<close> reads the file descriptor from its in-out parameter and stores the allocated
  page number there; the model returns the parameter's final value as the second component.
\<close>

definition new_page :: "BufferPoolManager \<Rightarrow> PageId \<Rightarrow> frame_id_t option \<times> PageId \<times> BufferPoolManager" where
  "new_page s page_id =
     (case find_victim_page s of
        (False, frame_id, s1) \<Rightarrow> (None, page_id, s1)
      | (True, frame_id, s1) \<Rightarrow>
          (case allocate_page (disk_manager s1) (fd page_id) of
             (new_page_no, dm) \<Rightarrow>
               let s2 = s1\<lparr>disk_manager := dm\<rparr>;
                   page_id' = page_id\<lparr>page_no := new_page_no\<rparr>;
                   s3 = update_page s2 frame_id page_id' frame_id;
                   s4 = s3\<lparr>replacer := pin (replacer s3) frame_id\<rparr>;
                   s5 = page_set s4 frame_id
                          ((page_at s4 frame_id)\<lparr>pin_count := pin_count (page_at s4 frame_id) + 1\<rparr>)
               in (Some frame_id, page_id', s5)))"

definition delete_page :: "BufferPoolManager \<Rightarrow> PageId \<Rightarrow> bool \<times> BufferPoolManager" where
  "delete_page s page_id =
     (case page_table s page_id of
        None \<Rightarrow> (True, s)
      | Some frame_id \<Rightarrow>
          if pin_count (page_at s frame_id) \<noteq> 0 then (False, s)
          else
            let s1 = s\<lparr>disk_manager :=
                        write_page (disk_manager s) (fd (ident (page_at s frame_id)))
                          (page_no (ident (page_at s frame_id))) (data (page_at s frame_id)) PAGE_SIZE\<rparr>;
                s2 = s1\<lparr>page_table := (page_table s1)(page_id := None)\<rparr>;
                s3 = page_set s2 frame_id (reset_memory (page_at s2 frame_id));
                s4 = page_set s3 frame_id ((page_at s3 frame_id)\<lparr>is_dirty := False\<rparr>);
                s5 = page_set s4 frame_id ((page_at s4 frame_id)\<lparr>pin_count := 0\<rparr>);
                s6 = page_set s5 frame_id
                       ((page_at s5 frame_id)\<lparr>ident := (ident (page_at s5 frame_id))\<lparr>page_no := INVALID_PAGE_ID\<rparr>\<rparr>)
            in (True, s6\<lparr>free_list := free_list s6 @ [frame_id]\<rparr>))"

text \<open>The body of the loop of \<^verbatim>\<open>flush_all_pages\<close> for frame \<open>i\<close>, and the loop over all frames.\<close>

definition flush_all_step :: "int \<Rightarrow> BufferPoolManager \<Rightarrow> nat \<Rightarrow> BufferPoolManager" where
  "flush_all_step f s i =
     (if fd (ident (pages s ! i)) = f \<and> page_no (ident (pages s ! i)) \<noteq> INVALID_PAGE_ID
      then (s\<lparr>disk_manager :=
                write_page (disk_manager s) f (page_no (ident (pages s ! i))) (data (pages s ! i)) PAGE_SIZE\<rparr>)
             \<lparr>pages := (pages s)[i := (pages s ! i)\<lparr>is_dirty := False\<rparr>]\<rparr>
      else s)"

definition flush_all_pages :: "BufferPoolManager \<Rightarrow> int \<Rightarrow> BufferPoolManager" where
  "flush_all_pages s f = foldl (flush_all_step f) s [0..<pool_size s]"

section \<open>Callers, observation points and invariants\<close>

text \<open>
  A caller issues protocol calls one after the other; the states between two calls are the
  observation points. A fatal disk fault ends the run.
\<close>

datatype request =
    FetchPage PageId
  | UnpinPage PageId bool
  | FlushPage PageId
  | NewPage PageId
  | DeletePage PageId
  | FlushAllPages int

fun step :: "BufferPoolManager \<Rightarrow> request \<Rightarrow> error + BufferPoolManager" where
  "step s (FetchPage page_id) = map_sum (\<lambda>e. e) snd (fetch_page s page_id)"
| "step s (UnpinPage page_id mark_dirty) = Inr (snd (unpin_page s page_id mark_dirty))"
| "step s (FlushPage page_id) = Inr (snd (flush_page s page_id))"
| "step s (NewPage page_id) = Inr (snd (snd (new_page s page_id)))"
| "step s (DeletePage page_id) = Inr (snd (delete_page s page_id))"
| "step s (FlushAllPages f) = Inr (flush_all_pages s f)"

fun run :: "BufferPoolManager \<Rightarrow> request list \<Rightarrow> error + BufferPoolManager" where
  "run s [] = Inr s"
| "run s (r # rs) = (case step s r of Inl e \<Rightarrow> Inl e | Inr s' \<Rightarrow> run s' rs)"

text \<open>The hash map indexes exactly the nodes of the list, and no frame is listed twice.\<close>

definition lru_inv :: "LRUReplacer \<Rightarrow> bool" where
  "lru_inv r \<longleftrightarrow> LRUhash r = set (LRUlist r) \<and> distinct (LRUlist r)"

text \<open>
  The representation invariant of the pool: the frame array has \<open>pool_size\<close> slots; free and
  eligible frames are valid indices of unpinned frames; a page-table entry points at a valid
  frame that carries the entry's identity and is not free; a resident page that nobody pins
  is known to the replacer.
\<close>

definition pool_inv :: "BufferPoolManager \<Rightarrow> bool" where
  "pool_inv s \<longleftrightarrow>
     length (pages s) = pool_size s \<and> lru_inv (replacer s) \<and> distinct (free_list s) \<and>
     (\<forall>f \<in> set (free_list s). 0 \<le> f \<and> nat f < pool_size s \<and> pin_count (page_at s f) = 0) \<and>
     (\<forall>f \<in> LRUhash (replacer s). 0 \<le> f \<and> nat f < pool_size s \<and> pin_count (page_at s f) = 0) \<and>
     (\<forall>page_id f. page_table s page_id = Some f \<longrightarrow>
        0 \<le> f \<and> nat f < pool_size s \<and> ident (page_at s f) = page_id \<and> f \<notin> set (free_list s) \<and>
        (pin_count (page_at s f) = 0 \<longrightarrow> f \<in> LRUhash (replacer s)))"

text \<open>Invariant 1 of the spec: no frame is in the free list and eligible at once.\<close>

definition partition_ok :: "BufferPoolManager \<Rightarrow> bool" where
  "partition_ok s \<longleftrightarrow> (\<forall>f \<in> set (free_list s). f \<notin> LRUhash (replacer s))"

text \<open>Two states that agree on everything except dirty flags and the disk.\<close>

definition same_but_dirty :: "BufferPoolManager \<Rightarrow> BufferPoolManager \<Rightarrow> bool" where
  "same_but_dirty s s' \<longleftrightarrow>
     pool_size s' = pool_size s \<and> page_table s' = page_table s \<and> free_list s' = free_list s \<and>
     replacer s' = replacer s \<and>
     map (\<lambda>p. p\<lparr>is_dirty := False\<rparr>) (pages s') = map (\<lambda>p. p\<lparr>is_dirty := False\<rparr>) (pages s)"

section \<open>Example pools\<close>

definition example_disk :: DiskManager where
  "example_disk =
     \<lparr>disk_pages = [(1, 0) \<mapsto> [1], (1, 1) \<mapsto> [2], (1, 2) \<mapsto> [3], (1, 3) \<mapsto> [4]],
      fd2pageno = (\<lambda>_. 4)\<rparr>"

definition pg :: "int \<Rightarrow> PageId" where
  "pg n = \<lparr>fd = 1, page_no = n\<rparr>"

text \<open>
  A pool with one frame after \<open>fetch_page (pg 0)\<close> on a fresh pool: the page is resident in
  frame 0 and pinned once.
\<close>

definition pool1_pinned :: BufferPoolManager where
  "pool1_pinned =
     \<lparr>pool_size = 1,
      pages = [\<lparr>ident = pg 0, data = take PAGE_SIZE [1], is_dirty = False, pin_count = 1\<rparr>],
      page_table = [pg 0 \<mapsto> 0], free_list = [],
      replacer = \<lparr>LRUlist = [], LRUhash = {}, max_size = 1\<rparr>,
      disk_manager = example_disk\<rparr>"

text \<open>The same pool after \<open>unpin_page (pg 0) true\<close>: the page is dirty, unpinned and eligible.\<close>

definition pool1_unpinned :: BufferPoolManager where
  "pool1_unpinned =
     \<lparr>pool_size = 1,
      pages = [\<lparr>ident = pg 0, data = take PAGE_SIZE [1], is_dirty = True, pin_count = 0\<rparr>],
      page_table = [pg 0 \<mapsto> 0], free_list = [],
      replacer = \<lparr>LRUlist = [0], LRUhash = {0}, max_size = 1\<rparr>,
      disk_manager = example_disk\<rparr>"

text \<open>
  A pool with three frames after \<open>fetch_page\<close> of \<open>pg 0\<close>, \<open>pg 1\<close> and \<open>pg 2\<close> on a fresh
  pool: every frame is taken and pinned once.
\<close>

definition pool3_pinned :: BufferPoolManager where
  "pool3_pinned =
     \<lparr>pool_size = 3,
      pages = [\<lparr>ident = pg 0, data = take PAGE_SIZE [1], is_dirty = False, pin_count = 1\<rparr>,
               \<lparr>ident = pg 1, data = take PAGE_SIZE [2], is_dirty = False, pin_count = 1\<rparr>,
               \<lparr>ident = pg 2, data = take PAGE_SIZE [3], is_dirty = False, pin_count = 1\<rparr>],
      page_table = [pg 0 \<mapsto> 0, pg 1 \<mapsto> 1, pg 2 \<mapsto> 2], free_list = [],
      replacer = \<lparr>LRUlist = [], LRUhash = {}, max_size = 3\<rparr>,
      disk_manager = example_disk\<rparr>"

section \<open>Equations of the operations\<close>

lemma update_page_eq:
  "0 \<le> f \<Longrightarrow> nat f < length (pages s) \<Longrightarrow>
   update_page s f new_page_id f =
     s\<lparr>disk_manager :=
          (if is_dirty (page_at s f)
           then write_page (disk_manager s) (fd (ident (page_at s f))) (page_no (ident (page_at s f)))
                  (data (page_at s f)) PAGE_SIZE
           else disk_manager s),
       page_table := ((page_table s)(ident (page_at s f) := None))(new_page_id \<mapsto> f),
       pages := (pages s)[nat f := \<lparr>ident = new_page_id, data = replicate PAGE_SIZE 0,
                                     is_dirty = False, pin_count = 0\<rparr>]\<rparr>"
  by (auto simp add: update_page_def Let_def reset_memory_def
      intro!: BufferPoolManager.equality Page.equality arg_cong [where f = "list_update _ _"])

lemma find_victim_page_free:
  "free_list s = f # fs \<Longrightarrow> find_victim_page s = (True, f, s\<lparr>free_list := fs\<rparr>)"
  by (simp add: find_victim_page_def)

lemma find_victim_page_lru:
  "free_list s = [] \<Longrightarrow> LRUlist (replacer s) \<noteq> [] \<Longrightarrow>
   find_victim_page s =
     (True, last (LRUlist (replacer s)),
      s\<lparr>replacer := (replacer s)\<lparr>LRUlist := butlast (LRUlist (replacer s)),
                                   LRUhash := LRUhash (replacer s) - {last (LRUlist (replacer s))}\<rparr>\<rparr>)"
  by (simp add: find_victim_page_def victim_def Let_def)

lemma find_victim_page_none:
  "free_list s = [] \<Longrightarrow> LRUlist (replacer s) = [] \<Longrightarrow>
   find_victim_page s = (False, INVALID_FRAME_ID, s)"
  by (simp add: find_victim_page_def victim_def)

lemma find_victim_page_cases:
  assumes "find_victim_page s = (True, f, s1)"
  shows "(\<exists>fs. free_list s = f # fs \<and> s1 = s\<lparr>free_list := fs\<rparr>) \<or>
     (free_list s = [] \<and> LRUlist (replacer s) \<noteq> [] \<and> f = last (LRUlist (replacer s)) \<and>
      s1 = s\<lparr>replacer := (replacer s)\<lparr>LRUlist := butlast (LRUlist (replacer s)),
                                        LRUhash := LRUhash (replacer s) - {f}\<rparr>\<rparr>)"
proof (cases "free_list s")
  case (Cons g gs)
  with assms show ?thesis by (simp add: find_victim_page_free)
next
  case Nil
  show ?thesis
  proof (cases "LRUlist (replacer s) = []")
    case True
    with Nil assms show ?thesis by (simp add: find_victim_page_none)
  next
    case False
    with Nil assms show ?thesis by (auto simp add: find_victim_page_lru)
  qed
qed

lemma find_victim_page_fail:
  "find_victim_page s = (False, f, s1) \<Longrightarrow> s1 = s"
  by (auto simp add: find_victim_page_def victim_def Let_def split: if_splits)

lemma find_victim_page_frame:
  "find_victim_page s = (ok, f, s1) \<Longrightarrow>
   pages s1 = pages s \<and> disk_manager s1 = disk_manager s \<and> page_table s1 = page_table s \<and>
   pool_size s1 = pool_size s"
  by (auto simp add: find_victim_page_def victim_def Let_def split: if_splits)

lemma fetch_page_hit_eq:
  "page_table s page_id = Some f \<Longrightarrow>
   fetch_page s page_id =
     Inr (Some f, s\<lparr>replacer := pin (replacer s) f,
                    pages := (pages s)[nat f := (page_at s f)\<lparr>pin_count := pin_count (page_at s f) + 1\<rparr>]\<rparr>)"
  by (simp add: fetch_page_def Let_def)

lemma fetch_page_miss:
  assumes "page_table s page_id = None" "find_victim_page s = (True, f, s1)"
    "0 \<le> f" "nat f < length (pages s1)"
  shows "fetch_page s page_id =
    (case read_page (disk_manager (update_page s1 f page_id f)) (fd page_id) (page_no page_id) PAGE_SIZE of
       None \<Rightarrow> Inl DiskFault
     | Some bytes \<Rightarrow>
         Inr (Some f,
              s1\<lparr>disk_manager := disk_manager (update_page s1 f page_id f),
                 page_table := ((page_table s1)(ident (page_at s1 f) := None))(page_id \<mapsto> f),
                 pages := (pages s1)[nat f := \<lparr>ident = page_id, data = bytes,
                                              is_dirty = False, pin_count = 1\<rparr>],
                 replacer := pin (replacer s1) f\<rparr>))"
  using assms
  by (auto simp add: fetch_page_def Let_def update_page_eq split: option.splits
      intro!: BufferPoolManager.equality)

lemma fetch_page_from_free_list:
  assumes "page_table s page_id = None" "free_list s = f # fs" "0 \<le> f" "nat f < length (pages s)"
    "\<not> is_dirty (page_at s f)" "page_table s (ident (page_at s f)) = None"
    "disk_pages (disk_manager s) (fd page_id, page_no page_id) = Some bytes"
  shows "fetch_page s page_id =
    Inr (Some f,
         s\<lparr>free_list := fs, page_table := (page_table s)(page_id \<mapsto> f),
           pages := (pages s)[nat f := \<lparr>ident = page_id, data = take PAGE_SIZE bytes,
                                        is_dirty = False, pin_count = 1\<rparr>],
           replacer := pin (replacer s) f\<rparr>)"
proof -
  from assms(2) have fv: "find_victim_page s = (True, f, s\<lparr>free_list := fs\<rparr>)"
    by (rule find_victim_page_free)
  from assms(4) have range: "nat f < length (pages (s\<lparr>free_list := fs\<rparr>))"
    by simp
  from assms(6) have "(page_table s)(ident (page_at s f) := None) = page_table s"
    by (simp add: fun_upd_idem)
  with assms(5,7) show ?thesis
    by (simp add: fetch_page_miss [OF assms(1) fv assms(3) range] update_page_eq [OF assms(3) range]
        read_page_def)
qed

lemma new_page_success:
  assumes "find_victim_page s = (True, f, s1)" "0 \<le> f" "nat f < length (pages s1)"
  shows "new_page s page_id =
    (Some f, page_id\<lparr>page_no := fd2pageno (disk_manager s1) (fd page_id)\<rparr>,
     s1\<lparr>disk_manager :=
          disk_manager (update_page (s1\<lparr>disk_manager := snd (allocate_page (disk_manager s1) (fd page_id))\<rparr>)
             f (page_id\<lparr>page_no := fd2pageno (disk_manager s1) (fd page_id)\<rparr>) f),
        page_table := ((page_table s1)(ident (page_at s1 f) := None))
                        (page_id\<lparr>page_no := fd2pageno (disk_manager s1) (fd page_id)\<rparr> \<mapsto> f),
        pages := (pages s1)[nat f := \<lparr>ident = page_id\<lparr>page_no := fd2pageno (disk_manager s1) (fd page_id)\<rparr>,
                                     data = replicate PAGE_SIZE 0, is_dirty = False, pin_count = 1\<rparr>],
        replacer := pin (replacer s1) f\<rparr>)"
  using assms
  by (auto simp add: new_page_def Let_def update_page_eq allocate_page_def
      intro!: BufferPoolManager.equality)

text \<open>The effect of a successful \<open>delete_page\<close>, field by field.\<close>

lemma delete_page_success:
  assumes "page_table s page_id = Some f" "pin_count (page_at s f) = 0"
  shows "fst (delete_page s page_id)"
    "pool_size (snd (delete_page s page_id)) = pool_size s"
    "page_table (snd (delete_page s page_id)) = (page_table s)(page_id := None)"
    "free_list (snd (delete_page s page_id)) = free_list s @ [f]"
    "replacer (snd (delete_page s page_id)) = replacer s"
    "disk_manager (snd (delete_page s page_id)) =
       write_page (disk_manager s) (fd (ident (page_at s f))) (page_no (ident (page_at s f)))
         (data (page_at s f)) PAGE_SIZE"
  using assms by (simp_all add: delete_page_def Let_def)

lemma delete_page_success_pages:
  assumes "page_table s page_id = Some f" "pin_count (page_at s f) = 0"
    "0 \<le> f" "nat f < length (pages s)"
  shows "pages (snd (delete_page s page_id)) =
       (pages s)[nat f := \<lparr>ident = (ident (page_at s f))\<lparr>page_no := INVALID_PAGE_ID\<rparr>,
                            data = replicate PAGE_SIZE 0, is_dirty = False, pin_count = 0\<rparr>]"
  using assms
  by (auto simp add: delete_page_def Let_def reset_memory_def
      intro!: Page.equality arg_cong [where f = "list_update _ _"])

lemma run_append:
  "run s (rs @ rs') = (case run s rs of Inl e \<Rightarrow> Inl e | Inr s' \<Rightarrow> run s' rs')"
  by (induction rs arbitrary: s) (auto split: sum.splits)

section \<open>The example pools are reachable\<close>

lemma pool1_pinned_reachable:
  "run (BufferPoolManager_new 1 example_disk) [FetchPage (pg 0)] = Inr pool1_pinned"
proof -
  have init: "BufferPoolManager_new 1 example_disk =
      \<lparr>pool_size = 1, pages = [new_Page], page_table = Map.empty, free_list = [0],
       replacer = \<lparr>LRUlist = [], LRUhash = {}, max_size = 1\<rparr>, disk_manager = example_disk\<rparr>"
    by (simp add: BufferPoolManager_new_def LRUReplacer_new_def)
  have "fetch_page (BufferPoolManager_new 1 example_disk) (pg 0) = Inr (Some 0, pool1_pinned)"
    unfolding init
    by (subst fetch_page_from_free_list [where f = 0 and fs = "[]" and bytes = "[1]"])
      (simp_all add: pool1_pinned_def new_Page_def pin_def example_disk_def pg_def)
  then show ?thesis
    by simp
qed

lemma pool1_unpinned_reachable:
  "run pool1_pinned [UnpinPage (pg 0) True] = Inr pool1_unpinned"
  by (simp add: pool1_pinned_def pool1_unpinned_def unpin_page_def unpin_def Let_def)

lemma pool3_pinned_reachable:
  "run (BufferPoolManager_new 3 example_disk) [FetchPage (pg 0), FetchPage (pg 1), FetchPage (pg 2)] =
     Inr pool3_pinned"
proof -
  define p0 where "p0 = \<lparr>ident = pg 0, data = take PAGE_SIZE [1::byte], is_dirty = False, pin_count = 1\<rparr>"
  define p1 where "p1 = \<lparr>ident = pg 1, data = take PAGE_SIZE [2::byte], is_dirty = False, pin_count = 1\<rparr>"
  define p2 where "p2 = \<lparr>ident = pg 2, data = take PAGE_SIZE [3::byte], is_dirty = False, pin_count = 1\<rparr>"
  define r where "r = \<lparr>LRUlist = [], LRUhash = {}, max_size = 3\<rparr>"
  define s0 where "s0 = \<lparr>pool_size = 3, pages = [new_Page, new_Page, new_Page],
      page_table = Map.empty, free_list = [0, 1, 2], replacer = r, disk_manager = example_disk\<rparr>"
  define s1 where "s1 = \<lparr>pool_size = 3, pages = [p0, new_Page, new_Page],
      page_table = [pg 0 \<mapsto> 0], free_list = [1, 2], replacer = r, disk_manager = example_disk\<rparr>"
  define s2 where "s2 = \<lparr>pool_size = 3, pages = [p0, p1, new_Page],
      page_table = [pg 0 \<mapsto> 0, pg 1 \<mapsto> 1], free_list = [2], replacer = r,
      disk_manager = example_disk\<rparr>"
  have init: "BufferPoolManager_new 3 example_disk = s0"
    by (simp add: BufferPoolManager_new_def LRUReplacer_new_def s0_def r_def upt_rec_numeral
        numeral_3_eq_3)
  have pin: "pin r f = r" for f
    by (simp add: pin_def r_def)
  have new: "\<not> is_dirty new_Page" "ident new_Page = \<lparr>fd = -1, page_no = INVALID_PAGE_ID\<rparr>"
    by (simp_all add: new_Page_def)
  have f0: "fetch_page s0 (pg 0) = Inr (Some 0, s1)"
    by (subst fetch_page_from_free_list [where f = 0 and fs = "[1, 2]" and bytes = "[1]"])
      (simp_all add: s0_def s1_def p0_def new pin example_disk_def pg_def)
  have f1: "fetch_page s1 (pg 1) = Inr (Some 1, s2)"
    by (subst fetch_page_from_free_list [where f = 1 and fs = "[2]" and bytes = "[2]"])
      (simp_all add: s1_def s2_def p1_def new pin example_disk_def pg_def)
  have f2: "fetch_page s2 (pg 2) = Inr (Some 2, pool3_pinned)"
    by (subst fetch_page_from_free_list [where f = 2 and fs = "[]" and bytes = "[3]"])
      (simp_all add: s2_def pool3_pinned_def p0_def p1_def new pin [unfolded r_def] example_disk_def pg_def r_def)
  from f0 f1 f2 show ?thesis
    by (simp add: init)
qed

section \<open>The LRU replacer\<close>

lemma lru_inv_new: "lru_inv (LRUReplacer_new n)"
  by (simp add: lru_inv_def LRUReplacer_new_def)

lemma lru_inv_unpin: "lru_inv r \<Longrightarrow> lru_inv (unpin r f)"
  by (auto simp: lru_inv_def unpin_def)

lemma lru_inv_pin: "lru_inv r \<Longrightarrow> lru_inv (pin r f)"
  by (auto simp: lru_inv_def pin_def)

lemma LRUhash_unpin: "LRUhash (unpin r f) = insert f (LRUhash r)"
  by (auto simp: unpin_def)

lemma LRUhash_pin: "LRUhash (pin r f) = LRUhash r - {f}"
  by (auto simp: pin_def)

lemma set_butlast_distinct:
  "distinct xs \<Longrightarrow> xs \<noteq> [] \<Longrightarrow> set (butlast xs) = set xs - {last xs}"
  by (cases xs rule: rev_cases) auto

lemma lru_inv_victim:
  "lru_inv r \<Longrightarrow> LRUlist r \<noteq> [] \<Longrightarrow>
   lru_inv (r\<lparr>LRUlist := butlast (LRUlist r), LRUhash := LRUhash r - {last (LRUlist r)}\<rparr>)"
  by (simp add: lru_inv_def set_butlast_distinct distinct_butlast)

lemma unpin_foldl:
  "lru_inv r \<Longrightarrow> lru_inv (foldl unpin r fs) \<and> LRUhash (foldl unpin r fs) = LRUhash r \<union> set fs"
proof (induction fs arbitrary: r)
  case Nil
  then show ?case by simp
next
  case (Cons f fs)
  from Cons.prems have "lru_inv (unpin r f)" by (rule lru_inv_unpin)
  from Cons.IH [OF this] show ?case by (simp add: LRUhash_unpin)
qed

lemma unpin_foldl_list:
  "lru_inv r \<Longrightarrow> distinct fs \<Longrightarrow> set fs \<inter> LRUhash r = {} \<Longrightarrow>
   foldl unpin r fs = r\<lparr>LRUlist := rev fs @ LRUlist r, LRUhash := LRUhash r \<union> set fs\<rparr>"
proof (induction fs arbitrary: r)
  case Nil
  then show ?case by simp
next
  case (Cons f fs)
  from Cons.prems have fresh: "f \<notin> LRUhash r" by simp
  then have u: "unpin r f = r\<lparr>LRUlist := f # LRUlist r, LRUhash := insert f (LRUhash r)\<rparr>"
    by (simp add: unpin_def)
  from Cons.prems have "lru_inv (unpin r f)" "distinct fs" "set fs \<inter> LRUhash (unpin r f) = {}"
    by (auto simp add: lru_inv_unpin LRUhash_unpin)
  from Cons.IH [OF this] show ?case
    by (simp add: u)
qed

lemma victim_after_unpins:
  assumes "distinct fs" "fs \<noteq> []"
  shows "victim (foldl unpin (LRUReplacer_new n) fs) =
    (True, hd fs, \<lparr>LRUlist = rev (tl fs), LRUhash = set (tl fs), max_size = n\<rparr>)"
proof -
  from assms obtain f gs where fs: "fs = f # gs" "f \<notin> set gs" "distinct gs"
    by (cases fs) auto
  have "foldl unpin (LRUReplacer_new n) fs =
      \<lparr>LRUlist = rev fs, LRUhash = set fs, max_size = n\<rparr>"
    using unpin_foldl_list [OF lru_inv_new assms(1), of n]
    by (simp add: LRUReplacer_new_def)
  with fs show ?thesis
    by (simp add: victim_def Let_def)
qed

lemma max_size_unpin_foldl: "max_size (foldl unpin r fs) = max_size r"
  by (induction fs arbitrary: r) (simp_all add: unpin_def)

text \<open>
  Claim C10. The replacer never enforces the capacity given to its constructor: after any
  sequence of \<open>unpin\<close> calls on a fresh replacer, with no \<open>pin\<close> or \<open>victim\<close> in between,
  \<open>Size\<close> is the number of distinct frame ids in the sequence, whatever \<open>num_pages\<close> was;
  \<open>max_size\<close> keeps the constructor's argument and is never consulted.
\<close>

theorem unpin_ignores_capacity:
  "Size (foldl unpin (LRUReplacer_new num_pages) fs) = card (set fs) \<and>
   max_size (foldl unpin (LRUReplacer_new num_pages) fs) = num_pages"
proof -
  let ?r = "foldl unpin (LRUReplacer_new num_pages) fs"
  have inv: "lru_inv ?r" and h: "LRUhash ?r = set fs"
    using unpin_foldl [OF lru_inv_new, of num_pages fs] by (simp_all add: LRUReplacer_new_def)
  from inv h have "set (LRUlist ?r) = set fs" "distinct (LRUlist ?r)"
    by (simp_all add: lru_inv_def)
  then have "Size ?r = card (set fs)"
    by (metis Size_def distinct_card)
  moreover have "max_size ?r = num_pages"
    by (simp add: max_size_unpin_foldl LRUReplacer_new_def)
  ultimately show ?thesis ..
qed

section \<open>Protocol operations\<close>

text \<open>
  Claim C3. \<open>unpin_page\<close> returns false and changes nothing when the page is not resident or
  its pin count is already 0. Otherwise it returns true, the pin count drops by one, the
  replacer's \<open>unpin\<close> is called on the frame exactly when the count drops from 1 to 0, the
  dirty flag is set when \<open>mark_dirty\<close> holds and stays as it was otherwise; nothing else changes.
\<close>

theorem unpin_page_spec:
  "(page_table s page_id = None \<longrightarrow> unpin_page s page_id mark_dirty = (False, s)) \<and>
   (\<forall>f. page_table s page_id = Some f \<and> pin_count (page_at s f) = 0 \<longrightarrow>
      unpin_page s page_id mark_dirty = (False, s)) \<and>
   (\<forall>f. page_table s page_id = Some f \<and> 0 \<le> f \<and> nat f < length (pages s) \<and>
        0 < pin_count (page_at s f) \<longrightarrow>
      unpin_page s page_id mark_dirty =
        (True, s\<lparr>pages := (pages s)[nat f := (page_at s f)
                    \<lparr>is_dirty := (mark_dirty \<or> is_dirty (page_at s f)),
                     pin_count := pin_count (page_at s f) - 1\<rparr>],
                 replacer := (if pin_count (page_at s f) = 1 then unpin (replacer s) f
                              else replacer s)\<rparr>))"
  by (auto simp add: unpin_page_def Let_def
      intro!: BufferPoolManager.equality Page.equality arg_cong [where f = "list_update _ _"])

theorem unpin_page_spec_witness:
  "page_table pool1_pinned (pg 1) = None \<and>
   unpin_page pool1_pinned (pg 1) True = (False, pool1_pinned) \<and>
   page_table pool1_unpinned (pg 0) = Some 0 \<and> pin_count (page_at pool1_unpinned 0) = 0 \<and>
   unpin_page pool1_unpinned (pg 0) False = (False, pool1_unpinned) \<and>
   page_table pool1_pinned (pg 0) = Some 0 \<and> (0::int) \<le> 0 \<and>
   nat 0 < length (pages pool1_pinned) \<and> 0 < pin_count (page_at pool1_pinned 0) \<and>
   unpin_page pool1_pinned (pg 0) True = (True, pool1_unpinned)"
proof -
  have absent: "page_table pool1_pinned (pg 1) = None"
    by (simp add: pool1_pinned_def pg_def)
  have released: "page_table pool1_unpinned (pg 0) = Some 0 \<and> pin_count (page_at pool1_unpinned 0) = 0"
    by (simp add: pool1_unpinned_def)
  have pinned: "page_table pool1_pinned (pg 0) = Some 0 \<and> (0::int) \<le> 0 \<and>
      nat 0 < length (pages pool1_pinned) \<and> 0 < pin_count (page_at pool1_pinned 0)"
    by (simp add: pool1_pinned_def)
  have post: "pool1_pinned
      \<lparr>pages := (pages pool1_pinned)[nat 0 := (page_at pool1_pinned 0)
          \<lparr>is_dirty := (True \<or> is_dirty (page_at pool1_pinned 0)),
           pin_count := pin_count (page_at pool1_pinned 0) - 1\<rparr>],
       replacer := (if pin_count (page_at pool1_pinned 0) = 1 then unpin (replacer pool1_pinned) 0
                    else replacer pool1_pinned)\<rparr> = pool1_unpinned"
    by (simp add: pool1_pinned_def pool1_unpinned_def unpin_def)
  from unpin_page_spec [of pool1_pinned "pg 1" True] absent
  have c1: "unpin_page pool1_pinned (pg 1) True = (False, pool1_pinned)"
    by blast
  from unpin_page_spec [of pool1_unpinned "pg 0" False] released
  have c2: "unpin_page pool1_unpinned (pg 0) False = (False, pool1_unpinned)"
    by blast
  from unpin_page_spec [of pool1_pinned "pg 0" True] pinned
  have "unpin_page pool1_pinned (pg 0) True =
      (True, pool1_pinned
        \<lparr>pages := (pages pool1_pinned)[nat 0 := (page_at pool1_pinned 0)
            \<lparr>is_dirty := (True \<or> is_dirty (page_at pool1_pinned 0)),
             pin_count := pin_count (page_at pool1_pinned 0) - 1\<rparr>],
         replacer := (if pin_count (page_at pool1_pinned 0) = 1 then unpin (replacer pool1_pinned) 0
                      else replacer pool1_pinned)\<rparr>)"
    by blast
  with post have c3: "unpin_page pool1_pinned (pg 0) True = (True, pool1_unpinned)"
    by simp
  from absent released pinned c1 c2 c3 show ?thesis
    by blast
qed

text \<open>
  Claim C6. For a resident page \<open>flush_page\<close> writes the frame's buffer to the page's slot on
  disk whatever the dirty flag and the pin count are, clears the dirty flag and changes nothing
  else: pin count, page table, free list, replacer, allocation counters and all other frames
  stay as they were. For a page that is not resident it returns false and changes nothing.
\<close>

theorem flush_page_spec:
  "(page_table s page_id = None \<longrightarrow> flush_page s page_id = (False, s)) \<and>
   (\<forall>f. page_table s page_id = Some f \<and> 0 \<le> f \<and> nat f < length (pages s) \<longrightarrow>
      (\<exists>s'. flush_page s page_id = (True, s') \<and>
         disk_manager s' =
           write_page (disk_manager s) (fd page_id) (page_no page_id) (data (page_at s f)) PAGE_SIZE \<and>
         disk_pages (disk_manager s') =
           (disk_pages (disk_manager s))
             ((fd page_id, page_no page_id) \<mapsto> take PAGE_SIZE (data (page_at s f))) \<and>
         fd2pageno (disk_manager s') = fd2pageno (disk_manager s) \<and>
         pages s' = (pages s)[nat f := (page_at s f)\<lparr>is_dirty := False\<rparr>] \<and>
         \<not> is_dirty (page_at s' f) \<and>
         pin_count (page_at s' f) = pin_count (page_at s f) \<and>
         page_table s' = page_table s \<and> free_list s' = free_list s \<and>
         replacer s' = replacer s \<and> pool_size s' = pool_size s))"
  by (simp add: flush_page_def Let_def write_page_def)

theorem flush_page_spec_witness:
  "page_table pool1_pinned (pg 1) = None \<and>
   flush_page pool1_pinned (pg 1) = (False, pool1_pinned) \<and>
   page_table pool1_unpinned (pg 0) = Some 0 \<and> (0::int) \<le> 0 \<and>
   nat 0 < length (pages pool1_unpinned) \<and>
   is_dirty (page_at pool1_unpinned 0) \<and> pin_count (page_at pool1_unpinned 0) = 0 \<and>
   fst (flush_page pool1_unpinned (pg 0)) \<and>
   \<not> is_dirty (page_at (snd (flush_page pool1_unpinned (pg 0))) 0) \<and>
   pin_count (page_at (snd (flush_page pool1_unpinned (pg 0))) 0) = 0 \<and>
   replacer (snd (flush_page pool1_unpinned (pg 0))) = replacer pool1_unpinned"
proof -
  have absent: "page_table pool1_pinned (pg 1) = None"
    by (simp add: pool1_pinned_def pg_def)
  have resident: "page_table pool1_unpinned (pg 0) = Some 0 \<and> (0::int) \<le> 0 \<and>
      nat 0 < length (pages pool1_unpinned)"
    by (simp add: pool1_unpinned_def)
  have before: "is_dirty (page_at pool1_unpinned 0) \<and> pin_count (page_at pool1_unpinned 0) = 0"
    by (simp add: pool1_unpinned_def)
  from flush_page_spec [of pool1_pinned "pg 1"] absent
  have miss: "flush_page pool1_pinned (pg 1) = (False, pool1_pinned)"
    by blast
  from flush_page_spec [of pool1_unpinned "pg 0"] resident
  obtain s' where s': "flush_page pool1_unpinned (pg 0) = (True, s')"
      "\<not> is_dirty (page_at s' 0)" "pin_count (page_at s' 0) = pin_count (page_at pool1_unpinned 0)"
      "replacer s' = replacer pool1_unpinned"
    by blast
  from s' before have "fst (flush_page pool1_unpinned (pg 0)) \<and>
      \<not> is_dirty (page_at (snd (flush_page pool1_unpinned (pg 0))) 0) \<and>
      pin_count (page_at (snd (flush_page pool1_unpinned (pg 0))) 0) = 0 \<and>
      replacer (snd (flush_page pool1_unpinned (pg 0))) = replacer pool1_unpinned"
    by simp
  with absent resident before miss show ?thesis
    by blast
qed

text \<open>
  Claim C8. \<open>delete_page\<close> is idempotent: on a page that is not resident it returns true and
  leaves the whole state unchanged; on a resident page with pin count 0 it returns true, the
  page is absent afterwards, and a second call returns true again without changing the state.
\<close>

theorem delete_page_idempotent:
  "(page_table s page_id = None \<longrightarrow> delete_page s page_id = (True, s)) \<and>
   (\<forall>f. page_table s page_id = Some f \<and> pin_count (page_at s f) = 0 \<longrightarrow>
      (\<exists>s'. delete_page s page_id = (True, s') \<and> page_table s' page_id = None \<and>
            delete_page s' page_id = (True, s')))"
  by (simp add: delete_page_def Let_def)

theorem delete_page_idempotent_witness:
  "page_table pool1_pinned (pg 1) = None \<and>
   delete_page pool1_pinned (pg 1) = (True, pool1_pinned) \<and>
   page_table pool1_unpinned (pg 0) = Some 0 \<and> pin_count (page_at pool1_unpinned 0) = 0 \<and>
   (\<exists>s'. delete_page pool1_unpinned (pg 0) = (True, s') \<and> page_table s' (pg 0) = None \<and>
         delete_page s' (pg 0) = (True, s'))"
proof -
  have absent: "page_table pool1_pinned (pg 1) = None"
    by (simp add: pool1_pinned_def pg_def)
  have resident: "page_table pool1_unpinned (pg 0) = Some 0 \<and> pin_count (page_at pool1_unpinned 0) = 0"
    by (simp add: pool1_unpinned_def)
  from delete_page_idempotent [of pool1_pinned "pg 1"] absent
  have c1: "delete_page pool1_pinned (pg 1) = (True, pool1_pinned)"
    by blast
  from delete_page_idempotent [of pool1_unpinned "pg 0"] resident
  have c2: "\<exists>s'. delete_page pool1_unpinned (pg 0) = (True, s') \<and> page_table s' (pg 0) = None \<and>
      delete_page s' (pg 0) = (True, s')"
    by blast
  from absent resident c1 c2 show ?thesis
    by blast
qed

text \<open>
  Claim C9. A cache hit of \<open>fetch_page\<close> returns the page's frame and changes only that
  frame's pin count, which grows by one, and the replacer, from which the frame is removed if
  it was eligible (the other eligible frames keep their order). The frame's dirty flag,
  identity and buffer, every other frame, the page table, the free list and the disk are
  unchanged.
\<close>

theorem fetch_page_hit:
  "page_table s page_id = Some f \<Longrightarrow> 0 \<le> f \<Longrightarrow> nat f < length (pages s) \<Longrightarrow>
     \<exists>s'. fetch_page s page_id = Inr (Some f, s') \<and>
       pages s' = (pages s)[nat f := (page_at s f)\<lparr>pin_count := pin_count (page_at s f) + 1\<rparr>] \<and>
       pin_count (page_at s' f) = pin_count (page_at s f) + 1 \<and>
       is_dirty (page_at s' f) = is_dirty (page_at s f) \<and>
       ident (page_at s' f) = ident (page_at s f) \<and>
       data (page_at s' f) = data (page_at s f) \<and>
       (\<forall>i. i \<noteq> nat f \<longrightarrow> pages s' ! i = pages s ! i) \<and>
       replacer s' = pin (replacer s) f \<and>
       LRUhash (replacer s') = LRUhash (replacer s) - {f} \<and>
       (lru_inv (replacer s) \<longrightarrow>
          LRUlist (replacer s') = removeAll f (LRUlist (replacer s))) \<and>
       page_table s' = page_table s \<and> free_list s' = free_list s \<and>
       disk_manager s' = disk_manager s \<and> pool_size s' = pool_size s"
  by (auto simp add: fetch_page_def Let_def pin_def lru_inv_def distinct_remove1_removeAll)

theorem fetch_page_hit_witness:
  "page_table pool1_unpinned (pg 0) = Some 0 \<and> (0::int) \<le> 0 \<and>
   nat 0 < length (pages pool1_unpinned) \<and> lru_inv (replacer pool1_unpinned) \<and>
   LRUlist (replacer pool1_unpinned) = [0] \<and> pin_count (page_at pool1_unpinned 0) = 0 \<and>
   (\<exists>s'. fetch_page pool1_unpinned (pg 0) = Inr (Some 0, s') \<and>
         pin_count (page_at s' 0) = 1 \<and> LRUlist (replacer s') = [] \<and>
         is_dirty (page_at s' 0) = is_dirty (page_at pool1_unpinned 0) \<and>
         page_table s' = page_table pool1_unpinned \<and> free_list s' = free_list pool1_unpinned)"
proof -
  have resident: "page_table pool1_unpinned (pg 0) = Some 0"
    and range: "(0::int) \<le> 0" "nat 0 < length (pages pool1_unpinned)"
    and before: "lru_inv (replacer pool1_unpinned)" "LRUlist (replacer pool1_unpinned) = [0]"
      "pin_count (page_at pool1_unpinned 0) = 0"
    by (simp_all add: pool1_unpinned_def lru_inv_def)
  from fetch_page_hit [OF resident range]
  obtain s' where s': "fetch_page pool1_unpinned (pg 0) = Inr (Some 0, s')"
      "pin_count (page_at s' 0) = pin_count (page_at pool1_unpinned 0) + 1"
      "lru_inv (replacer pool1_unpinned) \<longrightarrow>
         LRUlist (replacer s') = removeAll 0 (LRUlist (replacer pool1_unpinned))"
      "is_dirty (page_at s' 0) = is_dirty (page_at pool1_unpinned 0)"
      "page_table s' = page_table pool1_unpinned" "free_list s' = free_list pool1_unpinned"
    by blast
  from s'(2,3) before have "pin_count (page_at s' 0) = 1" "LRUlist (replacer s') = []"
    by simp_all
  with s'(1,4,5,6) resident range before show ?thesis
    by blast
qed

section \<open>Write-back before reuse\<close>

text \<open>
  Claim C5. When a dirty frame is repurposed, \<open>update_page\<close> first stores the frame's buffer
  in the disk slot of the frame's old identity and only then zeroes the buffer and installs
  the new identity with a clear dirty flag. The same holds for the two callers: after a
  \<open>fetch_page\<close> miss or a \<open>new_page\<close> that took the dirty frame \<open>f\<close>, the slot of the old
  identity holds the bytes the frame had in memory before the call.
\<close>

theorem writeback_before_reuse:
  assumes range: "0 \<le> f" "nat f < length (pages s)" and dirty: "is_dirty (page_at s f)"
  shows "disk_manager (update_page s f new_page_id f) =
       write_page (disk_manager s) (fd (ident (page_at s f))) (page_no (ident (page_at s f)))
         (data (page_at s f)) PAGE_SIZE \<and>
     disk_pages (disk_manager (update_page s f new_page_id f)) =
       (disk_pages (disk_manager s))
         ((fd (ident (page_at s f)), page_no (ident (page_at s f))) \<mapsto>
            take PAGE_SIZE (data (page_at s f))) \<and>
     page_at (update_page s f new_page_id f) f =
       \<lparr>ident = new_page_id, data = replicate PAGE_SIZE 0, is_dirty = False, pin_count = 0\<rparr> \<and>
     (\<forall>s1 r s'. page_table s page_id = None \<and> find_victim_page s = (True, f, s1) \<and>
        fetch_page s page_id = Inr (r, s') \<longrightarrow>
          r = Some f \<and> ident (page_at s' f) = page_id \<and> \<not> is_dirty (page_at s' f) \<and>
          disk_manager s' =
            write_page (disk_manager s) (fd (ident (page_at s f))) (page_no (ident (page_at s f)))
              (data (page_at s f)) PAGE_SIZE \<and>
          disk_pages (disk_manager s') =
            (disk_pages (disk_manager s))
              ((fd (ident (page_at s f)), page_no (ident (page_at s f))) \<mapsto>
                 take PAGE_SIZE (data (page_at s f)))) \<and>
     (\<forall>s1 r new_id s'. find_victim_page s = (True, f, s1) \<and>
        new_page s page_id = (r, new_id, s') \<longrightarrow>
          r = Some f \<and> ident (page_at s' f) = new_id \<and> \<not> is_dirty (page_at s' f) \<and>
          data (page_at s' f) = replicate PAGE_SIZE 0 \<and>
          disk_manager s' =
            write_page (snd (allocate_page (disk_manager s) (fd page_id)))
              (fd (ident (page_at s f))) (page_no (ident (page_at s f))) (data (page_at s f)) PAGE_SIZE \<and>
          disk_pages (disk_manager s') =
            (disk_pages (disk_manager s))
              ((fd (ident (page_at s f)), page_no (ident (page_at s f))) \<mapsto>
                 take PAGE_SIZE (data (page_at s f))))"
proof (intro conjI allI impI)
  show "disk_manager (update_page s f new_page_id f) =
       write_page (disk_manager s) (fd (ident (page_at s f))) (page_no (ident (page_at s f)))
         (data (page_at s f)) PAGE_SIZE"
    using dirty by (simp add: update_page_eq [OF range])
  show "disk_pages (disk_manager (update_page s f new_page_id f)) =
       (disk_pages (disk_manager s))
         ((fd (ident (page_at s f)), page_no (ident (page_at s f))) \<mapsto>
            take PAGE_SIZE (data (page_at s f)))"
    using dirty by (simp add: update_page_eq [OF range] write_page_def)
  show "page_at (update_page s f new_page_id f) f =
       \<lparr>ident = new_page_id, data = replicate PAGE_SIZE 0, is_dirty = False, pin_count = 0\<rparr>"
    using range by (simp add: update_page_eq [OF range])
next
  fix s1 r s'
  assume a: "page_table s page_id = None \<and> find_victim_page s = (True, f, s1) \<and>
        fetch_page s page_id = Inr (r, s')"
  then have fv: "find_victim_page s = (True, f, s1)" and miss: "page_table s page_id = None"
    and res: "fetch_page s page_id = Inr (r, s')"
    by simp_all
  from find_victim_page_frame [OF fv] have s1: "pages s1 = pages s" "disk_manager s1 = disk_manager s"
    by simp_all
  from range s1 have range1: "0 \<le> f" "nat f < length (pages s1)"
    by simp_all
  from res fetch_page_miss [OF miss fv range1]
  obtain bytes where r: "r = Some f"
    and s': "s' = s1\<lparr>disk_manager := disk_manager (update_page s1 f page_id f),
                 page_table := ((page_table s1)(ident (page_at s1 f) := None))(page_id \<mapsto> f),
                 pages := (pages s1)[nat f := \<lparr>ident = page_id, data = bytes,
                                              is_dirty = False, pin_count = 1\<rparr>],
                 replacer := pin (replacer s1) f\<rparr>"
    by (auto split: option.splits)
  from dirty s1 have d: "disk_pages (disk_manager (update_page s1 f page_id f)) =
       (disk_pages (disk_manager s))
         ((fd (ident (page_at s f)), page_no (ident (page_at s f))) \<mapsto>
            take PAGE_SIZE (data (page_at s f)))"
    by (simp add: update_page_eq [OF range1] write_page_def)
  from r show "r = Some f" .
  from range1 show "ident (page_at s' f) = page_id" by (simp add: s')
  from range1 show "\<not> is_dirty (page_at s' f)" by (simp add: s')
  from dirty s1 show "disk_manager s' =
            write_page (disk_manager s) (fd (ident (page_at s f))) (page_no (ident (page_at s f)))
              (data (page_at s f)) PAGE_SIZE"
    by (simp add: s' update_page_eq [OF range1])
  from d show "disk_pages (disk_manager s') =
            (disk_pages (disk_manager s))
              ((fd (ident (page_at s f)), page_no (ident (page_at s f))) \<mapsto>
                 take PAGE_SIZE (data (page_at s f)))"
    by (simp add: s')
next
  fix s1 r new_id s'
  assume a: "find_victim_page s = (True, f, s1) \<and> new_page s page_id = (r, new_id, s')"
  then have fv: "find_victim_page s = (True, f, s1)" and res: "new_page s page_id = (r, new_id, s')"
    by simp_all
  from find_victim_page_frame [OF fv] have s1: "pages s1 = pages s" "disk_manager s1 = disk_manager s"
    by simp_all
  from range s1 have range1: "0 \<le> f" "nat f < length (pages s1)"
    by simp_all
  note np = new_page_success [OF fv range1, of page_id]
  from res np have r: "r = Some f"
    and id: "new_id = page_id\<lparr>page_no := fd2pageno (disk_manager s1) (fd page_id)\<rparr>"
    by simp_all
  from res have "s' = snd (snd (new_page s page_id))" by simp
  then have s': "s' = s1\<lparr>disk_manager :=
          disk_manager (update_page (s1\<lparr>disk_manager := snd (allocate_page (disk_manager s1) (fd page_id))\<rparr>)
             f (page_id\<lparr>page_no := fd2pageno (disk_manager s1) (fd page_id)\<rparr>) f),
        page_table := ((page_table s1)(ident (page_at s1 f) := None))
                        (page_id\<lparr>page_no := fd2pageno (disk_manager s1) (fd page_id)\<rparr> \<mapsto> f),
        pages := (pages s1)[nat f := \<lparr>ident = page_id\<lparr>page_no := fd2pageno (disk_manager s1) (fd page_id)\<rparr>,
                                     data = replicate PAGE_SIZE 0, is_dirty = False, pin_count = 1\<rparr>],
        replacer := pin (replacer s1) f\<rparr>"
    by (simp add: np)
  from r show "r = Some f" .
  from range1 id show "ident (page_at s' f) = new_id" by (simp add: s')
  from range1 show "\<not> is_dirty (page_at s' f)" by (simp add: s')
  from range1 show "data (page_at s' f) = replicate PAGE_SIZE 0" by (simp add: s')
  from dirty s1 range1 show "disk_manager s' =
            write_page (snd (allocate_page (disk_manager s) (fd page_id)))
              (fd (ident (page_at s f))) (page_no (ident (page_at s f))) (data (page_at s f)) PAGE_SIZE"
    by (simp add: s' update_page_eq)
  from dirty s1 range1 show "disk_pages (disk_manager s') =
            (disk_pages (disk_manager s))
              ((fd (ident (page_at s f)), page_no (ident (page_at s f))) \<mapsto>
                 take PAGE_SIZE (data (page_at s f)))"
    by (simp add: s' update_page_eq write_page_def allocate_page_def)
qed

theorem writeback_before_reuse_witness:
  "(0::int) \<le> 0 \<and> nat 0 < length (pages pool1_unpinned) \<and> is_dirty (page_at pool1_unpinned 0) \<and>
   ident (page_at pool1_unpinned 0) = pg 0 \<and> data (page_at pool1_unpinned 0) = take PAGE_SIZE [1] \<and>
   page_table pool1_unpinned (pg 1) = None \<and>
   (\<exists>s1. find_victim_page pool1_unpinned = (True, 0, s1)) \<and>
   (\<exists>s'. fetch_page pool1_unpinned (pg 1) = Inr (Some 0, s') \<and>
      disk_pages (disk_manager s') (1, 0) = Some (take PAGE_SIZE (take PAGE_SIZE [1]))) \<and>
   (\<exists>new_id s'. new_page pool1_unpinned (pg 1) = (Some 0, new_id, s') \<and>
      disk_pages (disk_manager s') (1, 0) = Some (take PAGE_SIZE (take PAGE_SIZE [1])))"
proof -
  have range: "(0::int) \<le> 0" "nat 0 < length (pages pool1_unpinned)"
    and dirty: "is_dirty (page_at pool1_unpinned 0)"
    and frame: "ident (page_at pool1_unpinned 0) = pg 0"
      "data (page_at pool1_unpinned 0) = take PAGE_SIZE [1]"
    and absent: "page_table pool1_unpinned (pg 1) = None"
    by (simp_all add: pool1_unpinned_def pg_def)
  obtain s1 where fv: "find_victim_page pool1_unpinned = (True, 0, s1)"
    by (simp add: find_victim_page_def victim_def pool1_unpinned_def)
  from find_victim_page_frame [OF fv] range have range1: "nat 0 < length (pages s1)"
    and s1: "pages s1 = pages pool1_unpinned" "disk_manager s1 = disk_manager pool1_unpinned"
    by simp_all
  have "read_page (disk_manager (update_page s1 0 (pg 1) 0)) (fd (pg 1)) (page_no (pg 1)) PAGE_SIZE
      \<noteq> None"
    using range1 s1
    by (simp add: update_page_eq read_page_def write_page_def pool1_unpinned_def example_disk_def pg_def)
  with fetch_page_miss [OF absent fv range(1) range1]
  obtain r s' where fetched: "fetch_page pool1_unpinned (pg 1) = Inr (r, s')"
    by (auto split: option.splits)
  obtain r2 new_id s2 where created: "new_page pool1_unpinned (pg 1) = (r2, new_id, s2)"
    by (cases "new_page pool1_unpinned (pg 1)") auto
  note w = writeback_before_reuse [OF range dirty, of "pg 1" "pg 1"]
  from w absent fv fetched
  have 1: "r = Some 0 \<and> disk_pages (disk_manager s') =
      (disk_pages (disk_manager pool1_unpinned))
        ((fd (ident (page_at pool1_unpinned 0)), page_no (ident (page_at pool1_unpinned 0))) \<mapsto>
           take PAGE_SIZE (data (page_at pool1_unpinned 0)))"
    by blast
  from w fv created
  have 2: "r2 = Some 0 \<and> disk_pages (disk_manager s2) =
      (disk_pages (disk_manager pool1_unpinned))
        ((fd (ident (page_at pool1_unpinned 0)), page_no (ident (page_at pool1_unpinned 0))) \<mapsto>
           take PAGE_SIZE (data (page_at pool1_unpinned 0)))"
    by blast
  from 1 frame have "disk_pages (disk_manager s') (1, 0) = Some (take PAGE_SIZE (take PAGE_SIZE [1]))"
    by (simp add: pg_def)
  with 1 fetched have f: "\<exists>s'. fetch_page pool1_unpinned (pg 1) = Inr (Some 0, s') \<and>
      disk_pages (disk_manager s') (1, 0) = Some (take PAGE_SIZE (take PAGE_SIZE [1]))"
    by blast
  from 2 frame have "disk_pages (disk_manager s2) (1, 0) = Some (take PAGE_SIZE (take PAGE_SIZE [1]))"
    by (simp add: pg_def)
  with 2 created have n: "\<exists>new_id s'. new_page pool1_unpinned (pg 1) = (Some 0, new_id, s') \<and>
      disk_pages (disk_manager s') (1, 0) = Some (take PAGE_SIZE (take PAGE_SIZE [1]))"
    by blast
  from range dirty frame absent fv f n show ?thesis
    by blast
qed

section \<open>Invariant preservation\<close>

lemma pool_inv_resident:
  assumes "pool_inv s" "page_table s page_id = Some f"
  shows "0 \<le> f" "nat f < pool_size s" "nat f < length (pages s)" "ident (page_at s f) = page_id"
    "f \<notin> set (free_list s)" "pin_count (page_at s f) = 0 \<longrightarrow> f \<in> LRUhash (replacer s)"
  using assms by (simp_all add: pool_inv_def)

lemma pool_inv_same_frame:
  assumes "pool_inv s" "page_table s page_id = Some f" "page_table s pid = Some f"
  shows "pid = page_id"
proof -
  from assms(1,2) have "ident (page_at s f) = page_id" by (rule pool_inv_resident)
  moreover from assms(1,3) have "ident (page_at s f) = pid" by (rule pool_inv_resident)
  ultimately show ?thesis by simp
qed

lemma pool_inv_eligible:
  assumes "pool_inv s" "f \<in> LRUhash (replacer s)"
  shows "pin_count (page_at s f) = 0"
  using assms by (simp add: pool_inv_def)

text \<open>What a successful \<open>find_victim_page\<close> guarantees in a well-formed pool.\<close>

lemma find_victim_page_inv:
  assumes inv: "pool_inv s" and fv: "find_victim_page s = (True, f, s1)"
  shows "0 \<le> f \<and> nat f < pool_size s \<and> pin_count (page_at s f) = 0 \<and>
    pages s1 = pages s \<and> page_table s1 = page_table s \<and> disk_manager s1 = disk_manager s \<and>
    pool_size s1 = pool_size s \<and>
    f \<notin> set (free_list s1) \<and> set (free_list s1) \<subseteq> set (free_list s) \<and> distinct (free_list s1) \<and>
    lru_inv (replacer s1) \<and> LRUhash (replacer s1) \<subseteq> LRUhash (replacer s) \<and>
    LRUhash (replacer s) - {f} \<subseteq> LRUhash (replacer s1) \<and>
    (partition_ok s \<longrightarrow> f \<notin> LRUhash (replacer s1)) \<and>
    (\<forall>page_id. page_table s page_id = Some f \<longrightarrow> page_id = ident (page_at s f))"
  using find_victim_page_cases [OF fv]
proof (elim disjE exE conjE)
  fix fs
  assume "free_list s = f # fs" "s1 = s\<lparr>free_list := fs\<rparr>"
  with inv show ?thesis
    by (auto simp add: pool_inv_def partition_ok_def)
next
  assume a: "free_list s = []" "LRUlist (replacer s) \<noteq> []" "f = last (LRUlist (replacer s))"
    "s1 = s\<lparr>replacer := (replacer s)\<lparr>LRUlist := butlast (LRUlist (replacer s)),
                                        LRUhash := LRUhash (replacer s) - {f}\<rparr>\<rparr>"
  from a(2,3) have mem: "f \<in> set (LRUlist (replacer s))"
    by simp
  from inv have li: "lru_inv (replacer s)"
    by (simp add: pool_inv_def)
  from lru_inv_victim [OF li a(2)] a(3,4) have li1: "lru_inv (replacer s1)"
    by simp
  from li mem have "f \<in> LRUhash (replacer s)"
    by (simp add: lru_inv_def)
  with inv a(1,4) li1 show ?thesis
    by (auto simp add: pool_inv_def)
qed

lemma install_inv:
  assumes inv: "pool_inv s" and fv: "find_victim_page s = (True, f, s1)"
    and s': "pool_size s' = pool_size s" "pages s' = (pages s)[nat f := p]" "0 < pin_count p"
      "ident p = page_id"
      "page_table s' = ((page_table s)(ident (page_at s f) := None))(page_id \<mapsto> f)"
      "free_list s' = free_list s1" "replacer s' = pin (replacer s1) f"
  shows "pool_inv s' \<and> (partition_ok s \<longrightarrow> partition_ok s')"
proof -
  note v = find_victim_page_inv [OF inv fv]
  from v have li: "lru_inv (pin (replacer s1) f)"
    by (simp add: lru_inv_pin)
  from inv have len: "length (pages s) = pool_size s"
    by (simp add: pool_inv_def)
  have other: "page_at s' g = page_at s g" if "0 \<le> g" "g \<noteq> f" for g
  proof -
    from v have "0 \<le> f" by simp
    with that have "nat g \<noteq> nat f" by arith
    with s' show ?thesis by simp
  qed
  have free: "\<forall>g \<in> set (free_list s'). 0 \<le> g \<and> nat g < pool_size s' \<and> pin_count (page_at s' g) = 0"
  proof
    fix g
    assume "g \<in> set (free_list s')"
    with v s' have g: "g \<in> set (free_list s)" "g \<noteq> f" by auto
    with inv have "0 \<le> g \<and> nat g < pool_size s \<and> pin_count (page_at s g) = 0"
      by (simp add: pool_inv_def)
    with g other s' show "0 \<le> g \<and> nat g < pool_size s' \<and> pin_count (page_at s' g) = 0"
      by simp
  qed
  have elig: "\<forall>g \<in> LRUhash (replacer s'). 0 \<le> g \<and> nat g < pool_size s' \<and> pin_count (page_at s' g) = 0"
  proof
    fix g
    assume "g \<in> LRUhash (replacer s')"
    with v s' have g: "g \<in> LRUhash (replacer s)" "g \<noteq> f" by (auto simp add: LRUhash_pin)
    with inv have "0 \<le> g \<and> nat g < pool_size s \<and> pin_count (page_at s g) = 0"
      by (simp add: pool_inv_def)
    with g other s' show "0 \<le> g \<and> nat g < pool_size s' \<and> pin_count (page_at s' g) = 0"
      by simp
  qed
  have table: "\<forall>pid g. page_table s' pid = Some g \<longrightarrow>
        0 \<le> g \<and> nat g < pool_size s' \<and> ident (page_at s' g) = pid \<and> g \<notin> set (free_list s') \<and>
        (pin_count (page_at s' g) = 0 \<longrightarrow> g \<in> LRUhash (replacer s'))"
  proof (intro allI impI)
    fix pid g
    assume e: "page_table s' pid = Some g"
    show "0 \<le> g \<and> nat g < pool_size s' \<and> ident (page_at s' g) = pid \<and> g \<notin> set (free_list s') \<and>
        (pin_count (page_at s' g) = 0 \<longrightarrow> g \<in> LRUhash (replacer s'))"
    proof (cases "pid = page_id")
      case True
      with e s' have "g = f" by simp
      with True v s' len show ?thesis by simp
    next
      case False
      with e s' have old: "page_table s pid = Some g" "pid \<noteq> ident (page_at s f)"
        by (auto split: if_splits)
      with v have ne: "g \<noteq> f" by blast
      from old inv have g: "0 \<le> g \<and> nat g < pool_size s \<and> ident (page_at s g) = pid \<and>
          g \<notin> set (free_list s) \<and> (pin_count (page_at s g) = 0 \<longrightarrow> g \<in> LRUhash (replacer s))"
        by (simp add: pool_inv_def)
      with ne other have "page_at s' g = page_at s g" by simp
      moreover from v s' g have "g \<notin> set (free_list s')" by auto
      moreover have "LRUhash (replacer s') = LRUhash (replacer s1) - {f}"
        using s' by (simp add: LRUhash_pin)
      moreover from v have "LRUhash (replacer s) - {f} \<subseteq> LRUhash (replacer s1)" by simp
      ultimately show ?thesis
        using g ne s'(1) by auto
    qed
  qed
  have part: "partition_ok s \<longrightarrow> partition_ok s'"
    using v s' by (auto simp add: partition_ok_def LRUhash_pin)
  from inv v s' li free elig table part show ?thesis
    by (simp add: pool_inv_def)
qed

text \<open>
  A state that differs from a well-formed one in a single frame \<open>f\<close> is well formed again
  if the free list, the replacer and the page table treat \<open>f\<close> consistently with its new
  contents and every other frame as before.
\<close>

lemma pool_inv_modify:
  assumes inv: "pool_inv s" and f: "0 \<le> f" "nat f < pool_size s"
    and s': "pool_size s' = pool_size s" "pages s' = (pages s)[nat f := p]"
      "lru_inv (replacer s')" "distinct (free_list s')"
    and free: "\<And>g. g \<in> set (free_list s') \<Longrightarrow>
        g \<in> set (free_list s) \<and> g \<noteq> f \<or> g = f \<and> pin_count p = 0"
    and elig: "\<And>g. g \<in> LRUhash (replacer s') \<Longrightarrow>
        g \<in> LRUhash (replacer s) \<and> g \<noteq> f \<or> g = f \<and> pin_count p = 0"
    and table: "\<And>pid g. page_table s' pid = Some g \<Longrightarrow>
        g \<noteq> f \<and> page_table s pid = Some g \<and> g \<notin> set (free_list s') \<and>
          (g \<in> LRUhash (replacer s) \<longrightarrow> g \<in> LRUhash (replacer s')) \<or>
        g = f \<and> ident p = pid \<and> f \<notin> set (free_list s') \<and>
          (pin_count p = 0 \<longrightarrow> f \<in> LRUhash (replacer s'))"
  shows "pool_inv s'"
proof -
  from inv have len: "length (pages s) = pool_size s"
    by (simp add: pool_inv_def)
  have same: "page_at s' f = p"
    using s' f len by simp
  have other: "page_at s' g = page_at s g" if "0 \<le> g" "g \<noteq> f" for g
  proof -
    from that f have "nat g \<noteq> nat f" by arith
    with s' show ?thesis by simp
  qed
  have 1: "\<forall>g \<in> set (free_list s'). 0 \<le> g \<and> nat g < pool_size s' \<and> pin_count (page_at s' g) = 0"
  proof
    fix g
    assume "g \<in> set (free_list s')"
    from free [OF this] show "0 \<le> g \<and> nat g < pool_size s' \<and> pin_count (page_at s' g) = 0"
    proof
      assume g: "g \<in> set (free_list s) \<and> g \<noteq> f"
      with inv have "0 \<le> g \<and> nat g < pool_size s \<and> pin_count (page_at s g) = 0"
        by (simp add: pool_inv_def)
      with g other s' show ?thesis by simp
    next
      assume "g = f \<and> pin_count p = 0"
      with f same s' show ?thesis by simp
    qed
  qed
  have 2: "\<forall>g \<in> LRUhash (replacer s'). 0 \<le> g \<and> nat g < pool_size s' \<and> pin_count (page_at s' g) = 0"
  proof
    fix g
    assume "g \<in> LRUhash (replacer s')"
    from elig [OF this] show "0 \<le> g \<and> nat g < pool_size s' \<and> pin_count (page_at s' g) = 0"
    proof
      assume g: "g \<in> LRUhash (replacer s) \<and> g \<noteq> f"
      with inv have "0 \<le> g \<and> nat g < pool_size s \<and> pin_count (page_at s g) = 0"
        by (simp add: pool_inv_def)
      with g other s' show ?thesis by simp
    next
      assume "g = f \<and> pin_count p = 0"
      with f same s' show ?thesis by simp
    qed
  qed
  have 3: "\<forall>pid g. page_table s' pid = Some g \<longrightarrow>
        0 \<le> g \<and> nat g < pool_size s' \<and> ident (page_at s' g) = pid \<and> g \<notin> set (free_list s') \<and>
        (pin_count (page_at s' g) = 0 \<longrightarrow> g \<in> LRUhash (replacer s'))"
  proof (intro allI impI)
    fix pid g
    assume "page_table s' pid = Some g"
    from table [OF this]
    show "0 \<le> g \<and> nat g < pool_size s' \<and> ident (page_at s' g) = pid \<and> g \<notin> set (free_list s') \<and>
        (pin_count (page_at s' g) = 0 \<longrightarrow> g \<in> LRUhash (replacer s'))"
    proof
      assume g: "g \<noteq> f \<and> page_table s pid = Some g \<and> g \<notin> set (free_list s') \<and>
          (g \<in> LRUhash (replacer s) \<longrightarrow> g \<in> LRUhash (replacer s'))"
      with pool_inv_resident [OF inv, of pid g]
      have old: "0 \<le> g \<and> nat g < pool_size s \<and> ident (page_at s g) = pid \<and>
          (pin_count (page_at s g) = 0 \<longrightarrow> g \<in> LRUhash (replacer s))"
        by simp
      with g other have "page_at s' g = page_at s g" by simp
      with g old s' show ?thesis by simp
    next
      assume "g = f \<and> ident p = pid \<and> f \<notin> set (free_list s') \<and>
          (pin_count p = 0 \<longrightarrow> f \<in> LRUhash (replacer s'))"
      with f same s' show ?thesis by simp
    qed
  qed
  from len s' 1 2 3 show ?thesis
    by (simp add: pool_inv_def)
qed

lemma fetch_page_inv:
  assumes inv: "pool_inv s" and res: "fetch_page s page_id = Inr (r, s')"
  shows "pool_inv s' \<and> (partition_ok s \<longrightarrow> partition_ok s')"
proof (cases "page_table s page_id")
  case (Some f)
  note rf = pool_inv_resident [OF inv Some]
  from res have s': "s' = s\<lparr>replacer := pin (replacer s) f,
      pages := (pages s)[nat f := (page_at s f)\<lparr>pin_count := pin_count (page_at s f) + 1\<rparr>]\<rparr>"
    by (simp add: fetch_page_hit_eq [OF Some])
  have "pool_inv s'"
  proof (rule pool_inv_modify [OF inv rf(1,2)])
    show "pool_size s' = pool_size s" by (simp add: s')
    show "pages s' = (pages s)[nat f := (page_at s f)\<lparr>pin_count := pin_count (page_at s f) + 1\<rparr>]"
      by (simp add: s')
    from inv show "lru_inv (replacer s')" by (simp add: s' pool_inv_def lru_inv_pin)
    from inv show "distinct (free_list s')" by (simp add: s' pool_inv_def)
  next
    fix g
    assume "g \<in> set (free_list s')"
    with rf show "g \<in> set (free_list s) \<and> g \<noteq> f \<or>
        g = f \<and> pin_count ((page_at s f)\<lparr>pin_count := pin_count (page_at s f) + 1\<rparr>) = 0"
      by (auto simp add: s')
  next
    fix g
    assume "g \<in> LRUhash (replacer s')"
    then show "g \<in> LRUhash (replacer s) \<and> g \<noteq> f \<or>
        g = f \<and> pin_count ((page_at s f)\<lparr>pin_count := pin_count (page_at s f) + 1\<rparr>) = 0"
      by (simp add: s' LRUhash_pin)
  next
    fix pid g
    assume e: "page_table s' pid = Some g"
    then have e': "page_table s pid = Some g" by (simp add: s')
    show "g \<noteq> f \<and> page_table s pid = Some g \<and> g \<notin> set (free_list s') \<and>
          (g \<in> LRUhash (replacer s) \<longrightarrow> g \<in> LRUhash (replacer s')) \<or>
        g = f \<and> ident ((page_at s f)\<lparr>pin_count := pin_count (page_at s f) + 1\<rparr>) = pid \<and>
          f \<notin> set (free_list s') \<and>
          (pin_count ((page_at s f)\<lparr>pin_count := pin_count (page_at s f) + 1\<rparr>) = 0 \<longrightarrow>
             f \<in> LRUhash (replacer s'))"
    proof (cases "g = f")
      case True
      with e' pool_inv_same_frame [OF inv Some, of pid] have "pid = page_id" by simp
      with True rf show ?thesis by (simp add: s')
    next
      case False
      with e' pool_inv_resident(5) [OF inv e'] show ?thesis by (simp add: s' LRUhash_pin)
    qed
  qed
  moreover have "partition_ok s \<longrightarrow> partition_ok s'"
    by (auto simp add: partition_ok_def s' LRUhash_pin)
  ultimately show ?thesis ..
next
  case None
  show ?thesis
  proof (cases "find_victim_page s")
    case (fields ok f s1)
    show ?thesis
    proof (cases ok)
      case False
      with fields None res have "s1 = s'" by (simp add: fetch_page_def)
      moreover from fields False have "s1 = s"
        by (auto simp add: find_victim_page_def victim_def Let_def split: if_splits)
      ultimately show ?thesis using inv by simp
    next
      case True
      with fields have fv: "find_victim_page s = (True, f, s1)" by simp
      note v = find_victim_page_inv [OF inv fv]
      from v have s1: "pages s1 = pages s" "page_table s1 = page_table s" "pool_size s1 = pool_size s"
        by simp_all
      from inv v have range: "0 \<le> f" "nat f < length (pages s1)"
        by (simp_all add: pool_inv_def)
      from res have "fetch_page s page_id = Inr (r, s')" .
      with fetch_page_miss [OF None fv range]
      obtain bytes where s': "s' = s1\<lparr>disk_manager := disk_manager (update_page s1 f page_id f),
                 page_table := ((page_table s1)(ident (page_at s1 f) := None))(page_id \<mapsto> f),
                 pages := (pages s1)[nat f := \<lparr>ident = page_id, data = bytes,
                                              is_dirty = False, pin_count = 1\<rparr>],
                 replacer := pin (replacer s1) f\<rparr>"
        by (auto split: option.splits)
      show ?thesis
        by (rule install_inv [OF inv fv, where page_id = page_id
              and p = "\<lparr>ident = page_id, data = bytes, is_dirty = False, pin_count = 1\<rparr>"])
          (simp_all add: s' s1)
    qed
  qed
qed

lemma new_page_inv:
  assumes inv: "pool_inv s" and res: "new_page s page_id = (r, page_id', s')"
  shows "pool_inv s' \<and> (partition_ok s \<longrightarrow> partition_ok s')"
proof (cases "find_victim_page s")
  case (fields ok f s1)
  show ?thesis
  proof (cases ok)
    case False
    with fields res have "s1 = s'" by (simp add: new_page_def)
    moreover from fields False have "s1 = s" by (simp add: find_victim_page_fail)
    ultimately show ?thesis using inv by simp
  next
    case True
    with fields have fv: "find_victim_page s = (True, f, s1)" by simp
    note v = find_victim_page_inv [OF inv fv]
    from v have s1: "pages s1 = pages s" "page_table s1 = page_table s" "pool_size s1 = pool_size s"
      by simp_all
    from inv v have range: "0 \<le> f" "nat f < length (pages s1)"
      by (simp_all add: pool_inv_def)
    from res have "s' = snd (snd (new_page s page_id))" by simp
    then have s': "s' = s1\<lparr>disk_manager :=
          disk_manager (update_page (s1\<lparr>disk_manager := snd (allocate_page (disk_manager s1) (fd page_id))\<rparr>)
             f (page_id\<lparr>page_no := fd2pageno (disk_manager s1) (fd page_id)\<rparr>) f),
        page_table := ((page_table s1)(ident (page_at s1 f) := None))
                        (page_id\<lparr>page_no := fd2pageno (disk_manager s1) (fd page_id)\<rparr> \<mapsto> f),
        pages := (pages s1)[nat f := \<lparr>ident = page_id\<lparr>page_no := fd2pageno (disk_manager s1) (fd page_id)\<rparr>,
                                     data = replicate PAGE_SIZE 0, is_dirty = False, pin_count = 1\<rparr>],
        replacer := pin (replacer s1) f\<rparr>"
      by (simp add: new_page_success [OF fv range])
    show ?thesis
      by (rule install_inv [OF inv fv,
            where page_id = "page_id\<lparr>page_no := fd2pageno (disk_manager s1) (fd page_id)\<rparr>"
            and p = "\<lparr>ident = page_id\<lparr>page_no := fd2pageno (disk_manager s1) (fd page_id)\<rparr>,
                      data = replicate PAGE_SIZE 0, is_dirty = False, pin_count = 1\<rparr>"])
        (simp_all add: s' s1)
  qed
qed

lemma unpin_page_inv:
  assumes inv: "pool_inv s"
  shows "pool_inv (snd (unpin_page s page_id mark_dirty)) \<and>
    (partition_ok s \<longrightarrow> partition_ok (snd (unpin_page s page_id mark_dirty)))"
proof (cases "page_table s page_id")
  case None
  with inv show ?thesis by (simp add: unpin_page_def)
next
  case (Some f)
  note rf = pool_inv_resident [OF inv Some]
  show ?thesis
  proof (cases "pin_count (page_at s f) = 0")
    case True
    with Some inv show ?thesis by (simp add: unpin_page_def)
  next
    case False
    define p where "p = (page_at s f)\<lparr>is_dirty := (mark_dirty \<or> is_dirty (page_at s f)),
        pin_count := pin_count (page_at s f) - 1\<rparr>"
    define s' where "s' = snd (unpin_page s page_id mark_dirty)"
    from Some False rf have fields: "pool_size s' = pool_size s" "pages s' = (pages s)[nat f := p]"
      "page_table s' = page_table s" "free_list s' = free_list s"
      "replacer s' = (if pin_count (page_at s f) = 1 then unpin (replacer s) f else replacer s)"
      by (auto simp add: s'_def p_def unpin_page_def Let_def
          intro!: Page.equality arg_cong [where f = "list_update _ _"])
    have pc: "pin_count p = 0 \<longleftrightarrow> pin_count (page_at s f) = 1" "ident p = ident (page_at s f)"
      using False by (auto simp add: p_def)
    from False pool_inv_eligible [OF inv, of f] have notel: "f \<notin> LRUhash (replacer s)"
      by auto
    have "pool_inv s'"
    proof (rule pool_inv_modify [OF inv rf(1,2) fields(1,2)])
      from inv show "lru_inv (replacer s')" by (simp add: fields pool_inv_def lru_inv_unpin)
      from inv show "distinct (free_list s')" by (simp add: fields pool_inv_def)
    next
      fix g
      assume "g \<in> set (free_list s')"
      with rf show "g \<in> set (free_list s) \<and> g \<noteq> f \<or> g = f \<and> pin_count p = 0"
        by (auto simp add: fields)
    next
      fix g
      assume "g \<in> LRUhash (replacer s')"
      with notel pc show "g \<in> LRUhash (replacer s) \<and> g \<noteq> f \<or> g = f \<and> pin_count p = 0"
        by (auto simp add: fields LRUhash_unpin split: if_splits)
    next
      fix pid g
      assume e: "page_table s' pid = Some g"
      then have e': "page_table s pid = Some g" by (simp add: fields)
      show "g \<noteq> f \<and> page_table s pid = Some g \<and> g \<notin> set (free_list s') \<and>
            (g \<in> LRUhash (replacer s) \<longrightarrow> g \<in> LRUhash (replacer s')) \<or>
          g = f \<and> ident p = pid \<and> f \<notin> set (free_list s') \<and>
            (pin_count p = 0 \<longrightarrow> f \<in> LRUhash (replacer s'))"
      proof (cases "g = f")
        case True
        with e' pool_inv_same_frame [OF inv Some, of pid] have "pid = page_id" by simp
        with True rf pc show ?thesis by (simp add: fields LRUhash_unpin)
      next
        case False
        with e' pool_inv_resident(5) [OF inv e'] show ?thesis
          by (simp add: fields LRUhash_unpin)
      qed
    qed
    moreover have "partition_ok s \<longrightarrow> partition_ok s'"
      using rf by (auto simp add: partition_ok_def fields LRUhash_unpin)
    ultimately show ?thesis by (simp add: s'_def)
  qed
qed

lemma flush_page_inv:
  assumes inv: "pool_inv s"
  shows "pool_inv (snd (flush_page s page_id)) \<and>
    (partition_ok s \<longrightarrow> partition_ok (snd (flush_page s page_id)))"
proof (cases "page_table s page_id")
  case None
  with inv show ?thesis by (simp add: flush_page_def)
next
  case (Some f)
  note rf = pool_inv_resident [OF inv Some]
  define s' where "s' = snd (flush_page s page_id)"
  from Some have fields: "pool_size s' = pool_size s"
    "pages s' = (pages s)[nat f := (page_at s f)\<lparr>is_dirty := False\<rparr>]"
    "page_table s' = page_table s" "free_list s' = free_list s" "replacer s' = replacer s"
    by (simp_all add: s'_def flush_page_def Let_def)
  have "pool_inv s'"
  proof (rule pool_inv_modify [OF inv rf(1,2) fields(1,2)])
    from inv show "lru_inv (replacer s')" by (simp add: fields pool_inv_def)
    from inv show "distinct (free_list s')" by (simp add: fields pool_inv_def)
  next
    fix g
    assume "g \<in> set (free_list s')"
    with rf show "g \<in> set (free_list s) \<and> g \<noteq> f \<or>
        g = f \<and> pin_count ((page_at s f)\<lparr>is_dirty := False\<rparr>) = 0"
      by (auto simp add: fields)
  next
    fix g
    assume "g \<in> LRUhash (replacer s')"
    with pool_inv_eligible [OF inv, of g]
    show "g \<in> LRUhash (replacer s) \<and> g \<noteq> f \<or>
        g = f \<and> pin_count ((page_at s f)\<lparr>is_dirty := False\<rparr>) = 0"
      by (auto simp add: fields)
  next
    fix pid g
    assume e: "page_table s' pid = Some g"
    then have e': "page_table s pid = Some g" by (simp add: fields)
    show "g \<noteq> f \<and> page_table s pid = Some g \<and> g \<notin> set (free_list s') \<and>
          (g \<in> LRUhash (replacer s) \<longrightarrow> g \<in> LRUhash (replacer s')) \<or>
        g = f \<and> ident ((page_at s f)\<lparr>is_dirty := False\<rparr>) = pid \<and> f \<notin> set (free_list s') \<and>
          (pin_count ((page_at s f)\<lparr>is_dirty := False\<rparr>) = 0 \<longrightarrow> f \<in> LRUhash (replacer s'))"
    proof (cases "g = f")
      case True
      with e' pool_inv_same_frame [OF inv Some, of pid] have "pid = page_id" by simp
      with True rf show ?thesis by (simp add: fields)
    next
      case False
      with e' pool_inv_resident(5) [OF inv e'] show ?thesis
        by (simp add: fields)
    qed
  qed
  moreover have "partition_ok s \<longrightarrow> partition_ok s'"
    by (simp add: partition_ok_def fields)
  ultimately show ?thesis by (simp add: s'_def)
qed

lemma delete_page_inv:
  assumes inv: "pool_inv s"
  shows "pool_inv (snd (delete_page s page_id))"
proof (cases "page_table s page_id")
  case None
  with inv show ?thesis by (simp add: delete_page_def)
next
  case (Some f)
  note rf = pool_inv_resident [OF inv Some]
  show ?thesis
  proof (cases "pin_count (page_at s f) = 0")
    case False
    with Some inv show ?thesis by (simp add: delete_page_def)
  next
    case True
    define s' where "s' = snd (delete_page s page_id)"
    define p where "p = \<lparr>ident = (ident (page_at s f))\<lparr>page_no := INVALID_PAGE_ID\<rparr>,
                            data = replicate PAGE_SIZE 0, is_dirty = False, pin_count = 0\<rparr>"
    note d = delete_page_success [OF Some True, folded s'_def]
    have pg: "pages s' = (pages s)[nat f := p]"
      unfolding s'_def p_def by (rule delete_page_success_pages [OF Some True rf(1,3)])
    have "pool_inv s'"
    proof (rule pool_inv_modify [OF inv rf(1,2) d(2) pg])
      from inv show "lru_inv (replacer s')" by (simp add: d pool_inv_def)
      from inv rf show "distinct (free_list s')" by (simp add: d pool_inv_def)
    next
      fix g
      assume "g \<in> set (free_list s')"
      then show "g \<in> set (free_list s) \<and> g \<noteq> f \<or> g = f \<and> pin_count p = 0"
        by (auto simp add: d p_def)
    next
      fix g
      assume "g \<in> LRUhash (replacer s')"
      then show "g \<in> LRUhash (replacer s) \<and> g \<noteq> f \<or> g = f \<and> pin_count p = 0"
        by (auto simp add: d p_def)
    next
      fix pid g
      assume e: "page_table s' pid = Some g"
      then have e': "page_table s pid = Some g" "pid \<noteq> page_id"
        by (auto simp add: d split: if_splits)
      with pool_inv_same_frame [OF inv Some, of pid] have "g \<noteq> f" by auto
      with e' pool_inv_resident(5) [OF inv e'(1)]
      show "g \<noteq> f \<and> page_table s pid = Some g \<and> g \<notin> set (free_list s') \<and>
            (g \<in> LRUhash (replacer s) \<longrightarrow> g \<in> LRUhash (replacer s')) \<or>
          g = f \<and> ident p = pid \<and> f \<notin> set (free_list s') \<and>
            (pin_count p = 0 \<longrightarrow> f \<in> LRUhash (replacer s'))"
        by (simp add: d)
    qed
    then show ?thesis by (simp add: s'_def)
  qed
qed

text \<open>
  In a well-formed pool every successful \<open>delete_page\<close> of a resident page leaves the frame
  both in the free list and known to the replacer.
\<close>

lemma delete_page_breaks_partition:
  assumes inv: "pool_inv s" and res: "page_table s page_id = Some f"
    and unpinned: "pin_count (page_at s f) = 0"
  shows "f \<in> set (free_list (snd (delete_page s page_id))) \<and>
    f \<in> LRUhash (replacer (snd (delete_page s page_id))) \<and>
    \<not> partition_ok (snd (delete_page s page_id))"
proof -
  from pool_inv_resident(6) [OF inv res] unpinned have "f \<in> LRUhash (replacer s)"
    by simp
  then show ?thesis
    by (auto simp add: delete_page_success [OF res unpinned] partition_ok_def)
qed

lemma same_but_dirty_refl: "same_but_dirty s s"
  by (simp add: same_but_dirty_def)

lemma same_but_dirty_trans:
  "same_but_dirty s s' \<Longrightarrow> same_but_dirty s' s'' \<Longrightarrow> same_but_dirty s s''"
  by (simp add: same_but_dirty_def)

lemma same_but_dirty_page:
  assumes "same_but_dirty s s'"
  shows "length (pages s') = length (pages s)"
    and "i < length (pages s) \<Longrightarrow> pin_count (pages s' ! i) = pin_count (pages s ! i)"
    and "i < length (pages s) \<Longrightarrow> ident (pages s' ! i) = ident (pages s ! i)"
    and "i < length (pages s) \<Longrightarrow> data (pages s' ! i) = data (pages s ! i)"
proof -
  let ?g = "\<lambda>p::Page. p\<lparr>is_dirty := False\<rparr>"
  from assms have eq: "map ?g (pages s') = map ?g (pages s)"
    by (simp add: same_but_dirty_def)
  then show len: "length (pages s') = length (pages s)"
    by (rule map_eq_imp_length_eq)
  have g: "?g (pages s' ! i) = ?g (pages s ! i)" if "i < length (pages s)"
  proof -
    from that len have "map ?g (pages s') ! i = ?g (pages s' ! i)"
      "map ?g (pages s) ! i = ?g (pages s ! i)"
      by simp_all
    with eq show ?thesis by simp
  qed
  show "pin_count (pages s' ! i) = pin_count (pages s ! i)" if "i < length (pages s)"
    using arg_cong [OF g [OF that], of pin_count] by simp
  show "ident (pages s' ! i) = ident (pages s ! i)" if "i < length (pages s)"
    using arg_cong [OF g [OF that], of ident] by simp
  show "data (pages s' ! i) = data (pages s ! i)" if "i < length (pages s)"
    using arg_cong [OF g [OF that], of data] by simp
qed

lemma pool_inv_same_but_dirty:
  assumes inv: "pool_inv s" and same: "same_but_dirty s s'"
  shows "pool_inv s' \<and> (partition_ok s \<longrightarrow> partition_ok s')"
proof -
  from same have f: "pool_size s' = pool_size s" "page_table s' = page_table s"
    "free_list s' = free_list s" "replacer s' = replacer s"
    by (simp_all add: same_but_dirty_def)
  from inv have len: "length (pages s) = pool_size s"
    by (simp add: pool_inv_def)
  note pg = same_but_dirty_page [OF same]
  have eq: "pin_count (page_at s' g) = pin_count (page_at s g) \<and>
      ident (page_at s' g) = ident (page_at s g)" if "nat g < pool_size s" for g
    using that len pg(2,3) [of "nat g"] by simp
  from inv eq show ?thesis
    by (simp add: pool_inv_def partition_ok_def f pg(1))
qed

lemma flush_all_step_same: "same_but_dirty s (flush_all_step f s i)"
proof (cases "i < length (pages s)")
  case True
  then show ?thesis
    by (simp add: same_but_dirty_def flush_all_step_def map_update list_update_same_conv)
next
  case False
  then have "(pages s)[i := (pages s ! i)\<lparr>is_dirty := False\<rparr>] = pages s"
    by (simp add: list_update_beyond)
  then show ?thesis
    by (simp add: same_but_dirty_def flush_all_step_def)
qed

lemma flush_all_loop_same: "same_but_dirty s (foldl (flush_all_step f) s is)"
proof (induction "is" arbitrary: s)
  case Nil
  show ?case by (simp add: same_but_dirty_refl)
next
  case (Cons i "is")
  from flush_all_step_same [of s f i] Cons.IH [of "flush_all_step f s i"] show ?case
    by (simp add: same_but_dirty_trans)
qed

lemma flush_all_pages_inv:
  "pool_inv s \<Longrightarrow>
   pool_inv (flush_all_pages s f) \<and> (partition_ok s \<longrightarrow> partition_ok (flush_all_pages s f))"
  unfolding flush_all_pages_def by (rule pool_inv_same_but_dirty [OF _ flush_all_loop_same])

lemma pool_inv_new: "pool_inv (BufferPoolManager_new n dm) \<and> partition_ok (BufferPoolManager_new n dm)"
  by (simp add: pool_inv_def partition_ok_def BufferPoolManager_new_def LRUReplacer_new_def
      lru_inv_def new_Page_def distinct_map)

lemma step_inv:
  assumes inv: "pool_inv s" and st: "step s r = Inr s'"
  shows "pool_inv s'"
proof (cases r)
  case (FetchPage page_id)
  with st obtain res where "fetch_page s page_id = Inr (res, s')"
    by (cases "fetch_page s page_id") auto
  with inv show ?thesis using fetch_page_inv by blast
next
  case (UnpinPage page_id mark_dirty)
  with st inv unpin_page_inv [of s page_id mark_dirty] show ?thesis by auto
next
  case (FlushPage page_id)
  with st inv flush_page_inv [of s page_id] show ?thesis by auto
next
  case (NewPage page_id)
  with st have "new_page s page_id = (fst (new_page s page_id), fst (snd (new_page s page_id)), s')"
    by auto
  with inv show ?thesis using new_page_inv by blast
next
  case (DeletePage page_id)
  with st inv delete_page_inv [of s page_id] show ?thesis by auto
next
  case (FlushAllPages f)
  with st inv flush_all_pages_inv [of s f] show ?thesis by auto
qed

lemma run_inv: "pool_inv s \<Longrightarrow> run s rs = Inr s' \<Longrightarrow> pool_inv s'"
proof (induction rs arbitrary: s)
  case Nil
  then show ?case by simp
next
  case (Cons r rs)
  from Cons.prems(2) obtain s1 where s1: "step s r = Inr s1" "run s1 rs = Inr s'"
    by (cases "step s r") auto
  from step_inv [OF Cons.prems(1) s1(1)] s1(2) show ?case
    by (rule Cons.IH)
qed

text \<open>Every state a caller can observe is well formed.\<close>

lemma reachable_inv: "run (BufferPoolManager_new n dm) rs = Inr s \<Longrightarrow> pool_inv s"
  using pool_inv_new run_inv by blast

text \<open>Every protocol call other than \<open>delete_page\<close> keeps free and eligible frames apart.\<close>

lemma step_partition:
  assumes inv: "pool_inv s" and part: "partition_ok s" and st: "step s r = Inr s'"
    and nodel: "\<forall>page_id. r \<noteq> DeletePage page_id"
  shows "partition_ok s'"
proof (cases r)
  case (FetchPage page_id)
  with st obtain res where "fetch_page s page_id = Inr (res, s')"
    by (cases "fetch_page s page_id") auto
  with inv part show ?thesis using fetch_page_inv by blast
next
  case (UnpinPage page_id mark_dirty)
  with st inv part unpin_page_inv [of s page_id mark_dirty] show ?thesis by auto
next
  case (FlushPage page_id)
  with st inv part flush_page_inv [of s page_id] show ?thesis by auto
next
  case (NewPage page_id)
  with st have "new_page s page_id = (fst (new_page s page_id), fst (snd (new_page s page_id)), s')"
    by auto
  with inv part show ?thesis using new_page_inv by blast
next
  case (DeletePage page_id)
  with nodel show ?thesis by simp
next
  case (FlushAllPages f)
  with st inv part flush_all_pages_inv [of s f] show ?thesis by auto
qed

section \<open>Pool exhaustion\<close>

text \<open>
  Claim C7. When the free list is empty and no frame is eligible, \<open>fetch_page\<close> of a page
  that is not resident and \<open>new_page\<close> both return the null pointer and leave the whole
  state as it was: page table, frames, free list, replacer, pin counts and the disk manager's
  allocation counters. In particular, in every state a caller can reach in which all frames of
  the pool are pinned, the next \<open>fetch_page\<close> of an uncached page and the next \<open>new_page\<close> fail.
\<close>

theorem pool_exhausted:
  "(free_list s = [] \<and> LRUlist (replacer s) = [] \<longrightarrow>
      (page_table s page_id = None \<longrightarrow> fetch_page s page_id = Inr (None, s)) \<and>
      new_page s new_id = (None, new_id, s)) \<and>
   (run (BufferPoolManager_new n dm) rs = Inr s \<and>
    (\<forall>i < pool_size s. 0 < pin_count (pages s ! i)) \<longrightarrow>
      free_list s = [] \<and> LRUlist (replacer s) = [] \<and>
      (page_table s page_id = None \<longrightarrow> fetch_page s page_id = Inr (None, s)) \<and>
      new_page s new_id = (None, new_id, s))"
proof -
  have fail: "(page_table s page_id = None \<longrightarrow> fetch_page s page_id = Inr (None, s)) \<and>
      new_page s new_id = (None, new_id, s)"
    if "free_list s = []" "LRUlist (replacer s) = []"
    using that by (simp add: fetch_page_def new_page_def find_victim_page_none)
  have empty: "free_list s = [] \<and> LRUlist (replacer s) = []"
    if reach: "run (BufferPoolManager_new n dm) rs = Inr s"
      and pinned: "\<forall>i < pool_size s. 0 < pin_count (pages s ! i)"
  proof -
    from reach have inv: "pool_inv s" by (rule reachable_inv)
    have "g \<notin> set (free_list s)" for g
    proof
      assume "g \<in> set (free_list s)"
      with inv have "nat g < pool_size s \<and> pin_count (page_at s g) = 0"
        by (simp add: pool_inv_def)
      with pinned show False by auto
    qed
    then have 1: "free_list s = []" by (cases "free_list s") auto
    have "g \<notin> LRUhash (replacer s)" for g
    proof
      assume "g \<in> LRUhash (replacer s)"
      with inv have "nat g < pool_size s \<and> pin_count (page_at s g) = 0"
        by (simp add: pool_inv_def)
      with pinned show False by auto
    qed
    moreover from inv have "LRUhash (replacer s) = set (LRUlist (replacer s))"
      by (simp add: pool_inv_def lru_inv_def)
    ultimately have "g \<notin> set (LRUlist (replacer s))" for g by simp
    then have "LRUlist (replacer s) = []" by (cases "LRUlist (replacer s)") auto
    with 1 show ?thesis by simp
  qed
  from fail empty show ?thesis by blast
qed

theorem pool_exhausted_witness:
  "free_list pool1_pinned = [] \<and> LRUlist (replacer pool1_pinned) = [] \<and>
   page_table pool1_pinned (pg 1) = None \<and>
   run (BufferPoolManager_new 1 example_disk) [FetchPage (pg 0)] = Inr pool1_pinned \<and>
   pool_size pool1_pinned = 1 \<and> 0 < pin_count (pages pool1_pinned ! 0) \<and>
   fetch_page pool1_pinned (pg 1) = Inr (None, pool1_pinned) \<and>
   new_page pool1_pinned (pg 7) = (None, pg 7, pool1_pinned)"
proof -
  have exhausted: "free_list pool1_pinned = [] \<and> LRUlist (replacer pool1_pinned) = []"
    and absent: "page_table pool1_pinned (pg 1) = None"
    and frames: "pool_size pool1_pinned = 1 \<and> 0 < pin_count (pages pool1_pinned ! 0)"
    by (simp_all add: pool1_pinned_def pg_def)
  from frames have pinned: "\<forall>i < pool_size pool1_pinned. 0 < pin_count (pages pool1_pinned ! i)"
    by simp
  note reach = pool1_pinned_reachable
  from pool_exhausted [of pool1_pinned "pg 1" "pg 7" 1 example_disk "[FetchPage (pg 0)]"]
    exhausted absent pinned reach
  have "fetch_page pool1_pinned (pg 1) = Inr (None, pool1_pinned) \<and>
      new_page pool1_pinned (pg 7) = (None, pg 7, pool1_pinned)"
    by blast
  with exhausted absent frames reach show ?thesis by blast
qed

section \<open>Eviction order\<close>

lemma pool3_pinned_inv: "pool_inv pool3_pinned"
  by (auto simp add: pool_inv_def pool3_pinned_def lru_inv_def pg_def split: if_splits)

text \<open>The last unpin of a resident page, field by field.\<close>

lemma unpin_page_last_pin:
  assumes inv: "pool_inv s" and res: "page_table s page_id = Some f"
    and one: "pin_count (page_at s f) = 1"
  shows "fst (unpin_page s page_id d)"
    and "pool_inv (snd (unpin_page s page_id d))"
    and "page_table (snd (unpin_page s page_id d)) = page_table s"
    and "free_list (snd (unpin_page s page_id d)) = free_list s"
    and "disk_manager (snd (unpin_page s page_id d)) = disk_manager s"
    and "LRUlist (replacer (snd (unpin_page s page_id d))) = f # LRUlist (replacer s)"
    and "\<And>g. 0 \<le> g \<Longrightarrow> g \<noteq> f \<Longrightarrow>
           page_at (snd (unpin_page s page_id d)) g = page_at s g"
proof -
  note rf = pool_inv_resident [OF inv res]
  from one pool_inv_eligible [OF inv, of f] have notel: "f \<notin> LRUhash (replacer s)"
    by auto
  from res one rf show "fst (unpin_page s page_id d)"
    "page_table (snd (unpin_page s page_id d)) = page_table s"
    "free_list (snd (unpin_page s page_id d)) = free_list s"
    "disk_manager (snd (unpin_page s page_id d)) = disk_manager s"
    by (simp_all add: unpin_page_def Let_def)
  from res one rf notel show "LRUlist (replacer (snd (unpin_page s page_id d))) = f # LRUlist (replacer s)"
    by (simp add: unpin_page_def Let_def unpin_def)
  from inv show "pool_inv (snd (unpin_page s page_id d))"
    by (simp add: unpin_page_inv)
  show "page_at (snd (unpin_page s page_id d)) g = page_at s g" if "0 \<le> g" "g \<noteq> f" for g
  proof -
    from that rf(1) have "nat g \<noteq> nat f" by arith
    with res one show ?thesis by (simp add: unpin_page_def Let_def)
  qed
qed

text \<open>
  Claim C4. \<open>victim\<close> removes and returns the frame that became eligible first: after any
  sequence of \<open>unpin\<close> calls of distinct frames on a fresh replacer it returns the first frame
  of the sequence. In the pool: if pages \<open>A\<close>, \<open>B\<close>, \<open>C\<close> are resident and pinned once, no frame
  is free and no other frame is eligible, then after unpinning \<open>A\<close>, \<open>B\<close>, \<open>C\<close> in this order
  the fetch of a page \<open>D\<close> that is not resident evicts \<open>A\<close> and reuses \<open>A\<close>'s frame, while
  \<open>B\<close> and \<open>C\<close> stay resident and eligible.
\<close>

theorem lru_victim_order:
  "(distinct fs \<and> fs \<noteq> [] \<longrightarrow>
      victim (foldl unpin (LRUReplacer_new n) fs) =
        (True, hd fs, \<lparr>LRUlist = rev (tl fs), LRUhash = set (tl fs), max_size = n\<rparr>)) \<and>
   (pool_inv s \<and> page_table s A = Some fA \<and> page_table s B = Some fB \<and>
    page_table s C = Some fC \<and> A \<noteq> B \<and> A \<noteq> C \<and> B \<noteq> C \<and>
    pin_count (page_at s fA) = 1 \<and> pin_count (page_at s fB) = 1 \<and> pin_count (page_at s fC) = 1 \<and>
    free_list s = [] \<and> LRUlist (replacer s) = [] \<and> page_table s D = None \<and>
    disk_pages (disk_manager s) (fd D, page_no D) \<noteq> None \<longrightarrow>
      (\<exists>s1 s2 s3 s4.
         unpin_page s A dA = (True, s1) \<and> unpin_page s1 B dB = (True, s2) \<and>
         unpin_page s2 C dC = (True, s3) \<and> LRUlist (replacer s3) = [fC, fB, fA] \<and>
         fetch_page s3 D = Inr (Some fA, s4) \<and> fA \<noteq> fB \<and> fA \<noteq> fC \<and>
         page_table s4 D = Some fA \<and> page_table s4 A = None \<and>
         page_table s4 B = Some fB \<and> page_table s4 C = Some fC \<and>
         LRUlist (replacer s4) = [fC, fB]))"
proof (intro conjI impI)
  assume "distinct fs \<and> fs \<noteq> []"
  then show "victim (foldl unpin (LRUReplacer_new n) fs) =
        (True, hd fs, \<lparr>LRUlist = rev (tl fs), LRUhash = set (tl fs), max_size = n\<rparr>)"
    by (simp add: victim_after_unpins)
next
  assume h: "pool_inv s \<and> page_table s A = Some fA \<and> page_table s B = Some fB \<and>
    page_table s C = Some fC \<and> A \<noteq> B \<and> A \<noteq> C \<and> B \<noteq> C \<and>
    pin_count (page_at s fA) = 1 \<and> pin_count (page_at s fB) = 1 \<and> pin_count (page_at s fC) = 1 \<and>
    free_list s = [] \<and> LRUlist (replacer s) = [] \<and> page_table s D = None \<and>
    disk_pages (disk_manager s) (fd D, page_no D) \<noteq> None"
  then have inv: "pool_inv s" and tA: "page_table s A = Some fA" and tB: "page_table s B = Some fB"
    and tC: "page_table s C = Some fC" and ne: "A \<noteq> B" "A \<noteq> C" "B \<noteq> C"
    and pA: "pin_count (page_at s fA) = 1" and pB: "pin_count (page_at s fB) = 1"
    and pC: "pin_count (page_at s fC) = 1"
    and empty: "free_list s = []" "LRUlist (replacer s) = []"
    and tD: "page_table s D = None"
    and onDisk: "disk_pages (disk_manager s) (fd D, page_no D) \<noteq> None"
    by simp_all
  from pool_inv_same_frame [OF inv tA, of B] pool_inv_same_frame [OF inv tA, of C]
    pool_inv_same_frame [OF inv tB, of C] tB tC ne
  have fne: "fA \<noteq> fB" "fA \<noteq> fC" "fB \<noteq> fC"
    by auto
  note rA = pool_inv_resident [OF inv tA] and rB = pool_inv_resident [OF inv tB]
    and rC = pool_inv_resident [OF inv tC]
  define s1 where "s1 = snd (unpin_page s A dA)"
  note u1 = unpin_page_last_pin [OF inv tA pA, where d = dA, folded s1_def]
  from u1(3) tB have tB1: "page_table s1 B = Some fB" by simp
  from u1(7) [of fB] rB(1) fne pB have pB1: "pin_count (page_at s1 fB) = 1" by simp
  define s2 where "s2 = snd (unpin_page s1 B dB)"
  note u2 = unpin_page_last_pin [OF u1(2) tB1 pB1, where d = dB, folded s2_def]
  from u1(3) u2(3) tC have tC2: "page_table s2 C = Some fC" by simp
  from u1(7) [of fC] u2(7) [of fC] rC(1) fne pC have pC2: "pin_count (page_at s2 fC) = 1" by simp
  define s3 where "s3 = snd (unpin_page s2 C dC)"
  note u3 = unpin_page_last_pin [OF u2(2) tC2 pC2, where d = dC, folded s3_def]
  from u1(6) u2(6) u3(6) empty have lru3: "LRUlist (replacer s3) = [fC, fB, fA]" by simp
  from u1(4) u2(4) u3(4) empty have free3: "free_list s3 = []" by simp
  from u1(3) u2(3) u3(3) have pt3: "page_table s3 = page_table s" by simp
  from u1(5) u2(5) u3(5) have dm3: "disk_manager s3 = disk_manager s" by simp
  define s3' where "s3' = s3\<lparr>replacer := (replacer s3)\<lparr>LRUlist := butlast (LRUlist (replacer s3)),
      LRUhash := LRUhash (replacer s3) - {last (LRUlist (replacer s3))}\<rparr>\<rparr>"
  from find_victim_page_lru [OF free3, folded s3'_def] lru3
  have fv: "find_victim_page s3 = (True, fA, s3')" by simp
  from pt3 tA have tA3: "page_table s3 A = Some fA" by simp
  note rA3 = pool_inv_resident [OF u3(2) tA3]
  from rA3 have range: "0 \<le> fA" "nat fA < length (pages s3')" by (simp_all add: s3'_def)
  from pt3 tD have tD3: "page_table s3 D = None" by simp
  from dm3 have dm3': "disk_manager s3' = disk_manager s" by (simp add: s3'_def)
  have "disk_pages (disk_manager (update_page s3' fA D fA)) (fd D, page_no D) \<noteq> None"
    using onDisk by (simp add: update_page_eq [OF range] write_page_def dm3')
  then have "read_page (disk_manager (update_page s3' fA D fA)) (fd D) (page_no D) PAGE_SIZE \<noteq> None"
    by (simp add: read_page_def)
  with fetch_page_miss [OF tD3 fv range]
  obtain bytes where f4: "fetch_page s3 D = Inr (Some fA,
        s3'\<lparr>disk_manager := disk_manager (update_page s3' fA D fA),
            page_table := ((page_table s3')(ident (page_at s3' fA) := None))(D \<mapsto> fA),
            pages := (pages s3')[nat fA := \<lparr>ident = D, data = bytes,
                                           is_dirty = False, pin_count = 1\<rparr>],
            replacer := pin (replacer s3') fA\<rparr>)"
    by (auto split: option.splits)
  define s4 where "s4 = s3'\<lparr>disk_manager := disk_manager (update_page s3' fA D fA),
            page_table := ((page_table s3')(ident (page_at s3' fA) := None))(D \<mapsto> fA),
            pages := (pages s3')[nat fA := \<lparr>ident = D, data = bytes,
                                           is_dirty = False, pin_count = 1\<rparr>],
            replacer := pin (replacer s3') fA\<rparr>"
  from rA3(4) pt3 have pt4: "page_table s4 = ((page_table s)(A := None))(D \<mapsto> fA)"
    by (simp add: s4_def s3'_def)
  from tA tD have "A \<noteq> D" by auto
  moreover from tB tD have "B \<noteq> D" by auto
  moreover from tC tD have "C \<noteq> D" by auto
  ultimately have tables: "page_table s4 D = Some fA" "page_table s4 A = None"
    "page_table s4 B = Some fB" "page_table s4 C = Some fC"
    using ne tB tC by (simp_all add: pt4)
  from lru3 have "fA \<notin> LRUhash (replacer s3')"
    by (simp add: s3'_def)
  then have "pin (replacer s3') fA = replacer s3'"
    by (simp add: pin_def)
  with lru3 have lru4: "LRUlist (replacer s4) = [fC, fB]"
    by (simp add: s4_def s3'_def)
  from u1(1) u2(1) u3(1) have "unpin_page s A dA = (True, s1)" "unpin_page s1 B dB = (True, s2)"
    "unpin_page s2 C dC = (True, s3)"
    by (simp_all add: s1_def s2_def s3_def prod_eq_iff)
  with lru3 f4 [folded s4_def] fne tables lru4
  show "\<exists>s1 s2 s3 s4.
         unpin_page s A dA = (True, s1) \<and> unpin_page s1 B dB = (True, s2) \<and>
         unpin_page s2 C dC = (True, s3) \<and> LRUlist (replacer s3) = [fC, fB, fA] \<and>
         fetch_page s3 D = Inr (Some fA, s4) \<and> fA \<noteq> fB \<and> fA \<noteq> fC \<and>
         page_table s4 D = Some fA \<and> page_table s4 A = None \<and>
         page_table s4 B = Some fB \<and> page_table s4 C = Some fC \<and>
         LRUlist (replacer s4) = [fC, fB]"
    by blast
qed

theorem lru_victim_order_witness:
  "distinct [0::int, 1, 2] \<and> [0::int, 1, 2] \<noteq> [] \<and>
   victim (foldl unpin (LRUReplacer_new 3) [0, 1, 2]) =
     (True, 0, \<lparr>LRUlist = [2, 1], LRUhash = {1, 2}, max_size = 3\<rparr>) \<and>
   pool_inv pool3_pinned \<and> page_table pool3_pinned (pg 0) = Some 0 \<and>
   page_table pool3_pinned (pg 1) = Some 1 \<and> page_table pool3_pinned (pg 2) = Some 2 \<and>
   pg 0 \<noteq> pg 1 \<and> pg 0 \<noteq> pg 2 \<and> pg 1 \<noteq> pg 2 \<and>
   pin_count (page_at pool3_pinned 0) = 1 \<and> pin_count (page_at pool3_pinned 1) = 1 \<and>
   pin_count (page_at pool3_pinned 2) = 1 \<and>
   free_list pool3_pinned = [] \<and> LRUlist (replacer pool3_pinned) = [] \<and>
   page_table pool3_pinned (pg 3) = None \<and>
   disk_pages (disk_manager pool3_pinned) (fd (pg 3), page_no (pg 3)) \<noteq> None \<and>
   (\<exists>s1 s2 s3 s4.
      unpin_page pool3_pinned (pg 0) False = (True, s1) \<and> unpin_page s1 (pg 1) False = (True, s2) \<and>
      unpin_page s2 (pg 2) False = (True, s3) \<and> LRUlist (replacer s3) = [2, 1, 0] \<and>
      fetch_page s3 (pg 3) = Inr (Some 0, s4) \<and>
      page_table s4 (pg 3) = Some 0 \<and> page_table s4 (pg 0) = None \<and>
      page_table s4 (pg 1) = Some 1 \<and> page_table s4 (pg 2) = Some 2 \<and>
      LRUlist (replacer s4) = [2, 1])"
proof -
  have frames: "distinct [0::int, 1, 2] \<and> [0::int, 1, 2] \<noteq> []"
    by simp
  have pool: "pool_inv pool3_pinned \<and> page_table pool3_pinned (pg 0) = Some 0 \<and>
      page_table pool3_pinned (pg 1) = Some 1 \<and> page_table pool3_pinned (pg 2) = Some 2 \<and>
      pg 0 \<noteq> pg 1 \<and> pg 0 \<noteq> pg 2 \<and> pg 1 \<noteq> pg 2 \<and>
      pin_count (page_at pool3_pinned 0) = 1 \<and> pin_count (page_at pool3_pinned 1) = 1 \<and>
      pin_count (page_at pool3_pinned 2) = 1 \<and>
      free_list pool3_pinned = [] \<and> LRUlist (replacer pool3_pinned) = [] \<and>
      page_table pool3_pinned (pg 3) = None \<and>
      disk_pages (disk_manager pool3_pinned) (fd (pg 3), page_no (pg 3)) \<noteq> None"
    by (simp add: pool3_pinned_inv) (simp add: pool3_pinned_def pg_def example_disk_def)
  note w = lru_victim_order [of "[0, 1, 2]" 3 pool3_pinned "pg 0" 0 "pg 1" 1 "pg 2" 2 "pg 3"
      False False False]
  from w frames have "victim (foldl unpin (LRUReplacer_new 3) [0, 1, 2]) =
      (True, hd [0, 1, 2], \<lparr>LRUlist = rev (tl [0, 1, 2]), LRUhash = set (tl [0, 1, 2]), max_size = 3\<rparr>)"
    by blast
  then have v: "victim (foldl unpin (LRUReplacer_new 3) [0, 1, 2]) =
     (True, 0, \<lparr>LRUlist = [2, 1], LRUhash = {1, 2}, max_size = 3\<rparr>)"
    by simp
  from w pool have "\<exists>s1 s2 s3 s4.
      unpin_page pool3_pinned (pg 0) False = (True, s1) \<and> unpin_page s1 (pg 1) False = (True, s2) \<and>
      unpin_page s2 (pg 2) False = (True, s3) \<and> LRUlist (replacer s3) = [2, 1, 0] \<and>
      fetch_page s3 (pg 3) = Inr (Some 0, s4) \<and>
      page_table s4 (pg 3) = Some 0 \<and> page_table s4 (pg 0) = None \<and>
      page_table s4 (pg 1) = Some 1 \<and> page_table s4 (pg 2) = Some 2 \<and>
      LRUlist (replacer s4) = [2, 1]"
    by blast
  with frames v pool show ?thesis
    by blast
qed

section \<open>Deleting a page\<close>

text \<open>
  Claim C1 (fails on the code). \<open>delete_page\<close> never calls the replacer. In the pool with one
  frame, after \<open>fetch_page (pg 0)\<close> and \<open>unpin_page (pg 0) true\<close> the page is resident with pin
  count 0 and its frame 0 is eligible; \<open>delete_page (pg 0)\<close> succeeds, appends frame 0 to the
  free list and leaves it in the replacer's list and hash map, so \<open>Size\<close> still counts it.
\<close>

theorem delete_page_keeps_frame_eligible:
  "run (BufferPoolManager_new 1 example_disk) [FetchPage (pg 0), UnpinPage (pg 0) True] =
     Inr pool1_unpinned \<and>
   page_table pool1_unpinned (pg 0) = Some 0 \<and> pin_count (page_at pool1_unpinned 0) = 0 \<and>
   LRUlist (replacer pool1_unpinned) = [0] \<and> free_list pool1_unpinned = [] \<and>
   fst (delete_page pool1_unpinned (pg 0)) \<and>
   page_table (snd (delete_page pool1_unpinned (pg 0))) (pg 0) = None \<and>
   free_list (snd (delete_page pool1_unpinned (pg 0))) = [0] \<and>
   LRUlist (replacer (snd (delete_page pool1_unpinned (pg 0)))) = [0] \<and>
   0 \<in> LRUhash (replacer (snd (delete_page pool1_unpinned (pg 0)))) \<and>
   Size (replacer (snd (delete_page pool1_unpinned (pg 0)))) = 1"
proof -
  have res: "page_table pool1_unpinned (pg 0) = Some 0"
    and unpinned: "pin_count (page_at pool1_unpinned 0) = 0"
    and before: "LRUlist (replacer pool1_unpinned) = [0]" "free_list pool1_unpinned = []"
      "LRUhash (replacer pool1_unpinned) = {0}"
    by (simp_all add: pool1_unpinned_def)
  have "run (BufferPoolManager_new 1 example_disk) ([FetchPage (pg 0)] @ [UnpinPage (pg 0) True]) =
      Inr pool1_unpinned"
    unfolding run_append pool1_pinned_reachable
    by (simp only: sum.case pool1_unpinned_reachable)
  then have reach: "run (BufferPoolManager_new 1 example_disk)
      [FetchPage (pg 0), UnpinPage (pg 0) True] = Inr pool1_unpinned"
    by (simp only: append.simps)
  note d = delete_page_success [OF res unpinned]
  from res unpinned before d have "page_table pool1_unpinned (pg 0) = Some 0 \<and>
      pin_count (page_at pool1_unpinned 0) = 0 \<and>
      LRUlist (replacer pool1_unpinned) = [0] \<and> free_list pool1_unpinned = [] \<and>
      fst (delete_page pool1_unpinned (pg 0)) \<and>
      page_table (snd (delete_page pool1_unpinned (pg 0))) (pg 0) = None \<and>
      free_list (snd (delete_page pool1_unpinned (pg 0))) = [0] \<and>
      LRUlist (replacer (snd (delete_page pool1_unpinned (pg 0)))) = [0] \<and>
      0 \<in> LRUhash (replacer (snd (delete_page pool1_unpinned (pg 0)))) \<and>
      Size (replacer (snd (delete_page pool1_unpinned (pg 0)))) = 1"
    by (simp add: Size_def)
  with reach show ?thesis
    by (rule conjI)
qed

text \<open>
  Claim C2 (fails on the code). The partition of the frames is broken by \<open>delete_page\<close>: in
  the pool with three frames, after fetching \<open>pg 0\<close>, \<open>pg 1\<close>, \<open>pg 2\<close> and releasing \<open>pg 1\<close>
  no frame is both free and eligible, and after \<open>delete_page (pg 1)\<close> frame 1 is in the free
  list and in the replacer's eligibility set at once. (Lemma \<open>step_partition\<close> shows that the
  other five operations keep the two sets apart, and lemma \<open>delete_page_breaks_partition\<close>
  that every successful deletion of a resident page produces this state.)
\<close>

theorem delete_page_breaks_frame_partition:
  "run (BufferPoolManager_new 3 example_disk)
     [FetchPage (pg 0), FetchPage (pg 1), FetchPage (pg 2), UnpinPage (pg 1) False] =
     Inr (snd (unpin_page pool3_pinned (pg 1) False)) \<and>
   set (free_list (snd (unpin_page pool3_pinned (pg 1) False))) \<inter>
     LRUhash (replacer (snd (unpin_page pool3_pinned (pg 1) False))) = {} \<and>
   fst (delete_page (snd (unpin_page pool3_pinned (pg 1) False)) (pg 1)) \<and>
   1 \<in> set (free_list (snd (delete_page (snd (unpin_page pool3_pinned (pg 1) False)) (pg 1)))) \<and>
   1 \<in> LRUhash (replacer (snd (delete_page (snd (unpin_page pool3_pinned (pg 1) False)) (pg 1))))"
proof -
  define s where "s = snd (unpin_page pool3_pinned (pg 1) False)"
  have res: "page_table pool3_pinned (pg 1) = Some 1"
    and one: "pin_count (page_at pool3_pinned 1) = 1"
    and free: "free_list pool3_pinned = []"
    by (simp_all add: pool3_pinned_def pg_def)
  note u = unpin_page_last_pin [OF pool3_pinned_inv res one, where d = False, folded s_def]
  have "run (BufferPoolManager_new 3 example_disk)
     ([FetchPage (pg 0), FetchPage (pg 1), FetchPage (pg 2)] @ [UnpinPage (pg 1) False]) = Inr s"
    unfolding run_append pool3_pinned_reachable by (simp add: s_def)
  then have reach: "run (BufferPoolManager_new 3 example_disk)
     [FetchPage (pg 0), FetchPage (pg 1), FetchPage (pg 2), UnpinPage (pg 1) False] = Inr s"
    by simp
  from reach have inv: "pool_inv s"
    by (rule reachable_inv)
  from u(4) free have apart: "set (free_list s) \<inter> LRUhash (replacer s) = {}"
    by simp
  from u(3) res have res': "page_table s (pg 1) = Some 1"
    by simp
  from inv u(6) have "1 \<in> LRUhash (replacer s)"
    by (simp add: pool_inv_def lru_inv_def)
  then have unpinned: "pin_count (page_at s 1) = 0"
    by (rule pool_inv_eligible [OF inv])
  note d = delete_page_success(1) [OF res' unpinned]
    delete_page_breaks_partition [OF inv res' unpinned]
  from reach apart d show ?thesis
    by (simp add: s_def)
qed

end
